theory Spec2Isabelle
  imports Complex_Main "HOL-Library.Multiset"
begin

section \<open>Python values\<close>

text \<open>
  Both tools work on values decoded from JSON and on dictionaries they build themselves.
  A dictionary is kept as the list of its entries in insertion order; a well-formed one
  has pairwise distinct keys.
\<close>

datatype json =
    JNull
  | JBool bool
  | JInt int
  | JFloat real
  | JStr string
  | JList "json list"
  | JDict "(string \<times> json) list"

type_synonym dict = "(string \<times> json) list"

text \<open>The exceptions the two tools can meet; each carries what \<open>str(e)\<close> shows.\<close>

datatype exn =
    KeyError string
  | AttributeError string
  | TypeError string
  | ValueError string
  | HTTPError string
  | RequestException string
  | JSONDecodeError string

fun str_exn :: "exn \<Rightarrow> string" where
  "str_exn (KeyError k) = [CHR 0x27] @ k @ [CHR 0x27]"
| "str_exn (AttributeError m) = m"
| "str_exn (TypeError m) = m"
| "str_exn (ValueError m) = m"
| "str_exn (HTTPError m) = m"
| "str_exn (RequestException m) = m"
| "str_exn (JSONDecodeError m) = m"

text \<open>\<open>d.get(k, default)\<close>, \<open>d[k]\<close> and \<open>d[k] = v\<close> on a dictionary.\<close>

definition dict_get :: "dict \<Rightarrow> string \<Rightarrow> json \<Rightarrow> json" where
  "dict_get d k dflt = (case map_of d k of Some v \<Rightarrow> v | None \<Rightarrow> dflt)"

definition dict_item :: "dict \<Rightarrow> string \<Rightarrow> exn + json" where
  "dict_item d k = (case map_of d k of Some v \<Rightarrow> Inr v | None \<Rightarrow> Inl (KeyError k))"

fun dict_set :: "dict \<Rightarrow> string \<Rightarrow> json \<Rightarrow> dict" where
  "dict_set [] k v = [(k, v)]"
| "dict_set ((k', v') # d) k v =
     (if k' = k then (k, v) # d else (k', v') # dict_set d k v)"

text \<open>Truth value of a Python object, as \<open>if x:\<close> tests it.\<close>

fun truthy :: "json \<Rightarrow> bool" where
  "truthy JNull = False"
| "truthy (JBool b) = b"
| "truthy (JInt i) = (i \<noteq> 0)"
| "truthy (JFloat r) = (r \<noteq> 0)"
| "truthy (JStr s) = (s \<noteq> [])"
| "truthy (JList xs) = (xs \<noteq> [])"
| "truthy (JDict d) = (d \<noteq> [])"

text \<open>\<open>len(x)\<close>: defined on strings, lists and dictionaries, a TypeError elsewhere.\<close>

fun py_len :: "json \<Rightarrow> exn + nat" where
  "py_len (JStr s) = Inr (length s)"
| "py_len (JList xs) = Inr (length xs)"
| "py_len (JDict d) = Inr (length (remdups (map fst d)))"
| "py_len _ = Inl (TypeError ''object has no len()'')"

text \<open>\<open>str(n)\<close> of a natural number: its decimal digits.\<close>

definition digit_char :: "nat \<Rightarrow> char" where
  "digit_char d = char_of (48 + d)"

fun str_nat :: "nat \<Rightarrow> string" where
  "str_nat n = (if n < 10 then [digit_char n] else str_nat (n div 10) @ [digit_char (n mod 10)])"

declare str_nat.simps [simp del]

text \<open>
  A float as Python prints it. \<open>Finite neg ds p\<close> is the float whose shortest decimal
  text that reads back to it has the digits \<open>ds\<close>, with the decimal point after the first
  \<open>p\<close> of them (it is \<open>0.ds\<close> times \<open>10 ^ p\<close>, negated when \<open>neg\<close>). \<open>str\<close> of a float
  writes these digits in positional notation when \<open>-4 < p \<le> 16\<close>, always with a point and a
  digit after it, and with an exponent of at least two digits otherwise.
\<close>

datatype pyfloat = Finite bool "nat list" int | Infinite bool | NotANumber

definition str_exponent :: "int \<Rightarrow> string" where
  "str_exponent e =
     (if e < 0 then ''-'' else ''+'') @ (if nat \<bar>e\<bar> < 10 then ''0'' else [])
       @ str_nat (nat \<bar>e\<bar>)"

fun str_float :: "pyfloat \<Rightarrow> string" where
  "str_float NotANumber = ''nan''"
| "str_float (Infinite neg) = (if neg then ''-inf'' else ''inf'')"
| "str_float (Finite neg ds p) =
     (if neg then ''-'' else []) @
     (if - 4 < p \<and> p \<le> 16 then
        (if p \<le> 0 then ''0.'' @ replicate (nat (- p)) (CHR ''0'') @ map digit_char ds
         else if int (length ds) \<le> p then
           map digit_char ds @ replicate (nat (p - int (length ds))) (CHR ''0'') @ ''.0''
         else map digit_char (take (nat p) ds) @ ''.'' @ map digit_char (drop (nat p) ds))
      else
        map digit_char (take 1 ds)
          @ (if 1 < length ds then ''.'' @ map digit_char (drop 1 ds) else [])
          @ ''e'' @ str_exponent (p - 1))"

section \<open>Ingestion: transform\_product\<close>

text \<open>
  \<open>transform_product\<close> reads the clock once, before anything else; \<open>now\<close> is that
  reading, the float \<open>time.time()\<close>, and the fallback id is its text. A product that is
  not a dictionary has no \<open>get\<close>; a dictionary without \<open>title\<close> raises KeyError at
  \<open>product["title"]\<close>.
\<close>

fun transform_product :: "pyfloat \<Rightarrow> json \<Rightarrow> exn + dict" where
  "transform_product now (JDict product) =
     (case dict_item product ''title'' of
        Inl e \<Rightarrow> Inl e
      | Inr title \<Rightarrow>
          Inr [(''id'', dict_get product ''platform_id'' (JStr (str_float now))),
               (''title'', title),
               (''description'', dict_get product ''description'' (JStr [])),
               (''image_url'', dict_get product ''image_url'' (JStr [])),
               (''link'', dict_get product ''url'' (JStr [])),
               (''price'', dict_get product ''price'' (JFloat 0)),
               (''categories'', dict_get product ''category'' (JList [])),
               (''availability'', JStr ''in stock'')])"
| "transform_product now _ = Inl (AttributeError ''object has no attribute get'')"

section \<open>Ingestion: the batches\<close>

text \<open>
  \<open>range(lo, hi, step)\<close>: a ValueError for step 0, and otherwise the values
  \<open>lo + k * step\<close> for \<open>k\<close> below the length that Python computes for the range.
\<close>

definition range_length :: "int \<Rightarrow> int \<Rightarrow> int \<Rightarrow> nat" where
  "range_length lo hi step =
     (if 0 < step \<and> lo < hi then nat ((hi - lo - 1) div step + 1)
      else if step < 0 \<and> hi < lo then nat ((lo - hi - 1) div (- step) + 1)
      else 0)"

definition py_range :: "int \<Rightarrow> int \<Rightarrow> int \<Rightarrow> exn + int list" where
  "py_range lo hi step =
     (if step = 0 then Inl (ValueError ''range() arg 3 must not be zero'')
      else Inr (map (\<lambda>k. lo + int k * step) [0..<range_length lo hi step]))"

text \<open>
  \<open>xs[i:j]\<close>: a negative bound counts from the end, and both bounds are clamped to the
  list, so a slice never fails.
\<close>

definition slice_index :: "nat \<Rightarrow> int \<Rightarrow> nat" where
  "slice_index n i = (if i < 0 then nat (max 0 (i + int n)) else min (nat i) n)"

definition py_slice :: "'a list \<Rightarrow> int \<Rightarrow> int \<Rightarrow> 'a list" where
  "py_slice xs i j =
     (let a = slice_index (length xs) i; b = slice_index (length xs) j
      in take (b - a) (drop a xs))"

text \<open>
  The list comprehension of \<open>main\<close> that cuts the transformed products into batches:
  \<open>[tp[i : i + batch_size] for i in range(0, len(tp), batch_size)]\<close>.
\<close>

definition batches :: "int \<Rightarrow> 'a list \<Rightarrow> exn + 'a list list" where
  "batches bsize transformed_products =
     (case py_range 0 (int (length transformed_products)) bsize of
        Inl e \<Rightarrow> Inl e
      | Inr starts \<Rightarrow>
          Inr (map (\<lambda>i. py_slice transformed_products i (i + bsize)) starts))"

text \<open>The number of windows of width \<open>s\<close> that \<open>range\<close> starts inside \<open>n\<close> items.\<close>

definition batch_count :: "nat \<Rightarrow> nat \<Rightarrow> nat" where
  "batch_count n s = (if n = 0 then 0 else (n - 1) div s + 1)"

section \<open>Ingestion: the remote index client\<close>

text \<open>
  The remote service is outside the program. A call of \<open>requests.post\<close> either raises
  (no connection, the 30 second timeout) or returns a response; \<open>raise_for_status\<close>
  raises an HTTPError for the statuses 400 to 599, and \<open>response.json()\<close> gives the
  decoded body or raises the decoder's error.
\<close>

record request =
  url :: string
  hdrs :: dict
  query_params :: dict
  body :: "json option"
  timeout :: "nat option"

record response =
  status_code :: nat
  http_error :: string
  json_body :: "exn + json"

datatype http_outcome = Raised exn | Returned response

definition raise_for_status :: "response \<Rightarrow> exn + unit" where
  "raise_for_status r =
     (if 400 \<le> status_code r \<and> status_code r < 600 then Inl (HTTPError (http_error r))
      else Inr ())"

record api_client =
  hashid :: string
  api_key :: string
  search_zone :: string
  base_url :: string
  headers :: dict

record client = api_client +
  batch_size :: int

definition DoofinderIngestion :: "string \<Rightarrow> string \<Rightarrow> string \<Rightarrow> int \<Rightarrow> client" where
  "DoofinderIngestion h k z n =
     \<lparr>hashid = h, api_key = k, search_zone = z,
      base_url = ''https://'' @ z @ ''-search.doofinder.com/6/'' @ h,
      headers = [(''Content-Type'', JStr ''application/json''),
                 (''Authorization'', JStr (''Token '' @ k))],
      batch_size = n\<rparr>"

definition create_temporary_index ::
  "(request \<Rightarrow> http_outcome) \<Rightarrow> client \<Rightarrow> string \<Rightarrow> exn + string" where
  "create_temporary_index post self name =
     (case post \<lparr>url = base_url self @ ''/indices/'' @ name @ ''_temp'',
                  hdrs = headers self, query_params = [], body = None, timeout = None\<rparr> of
        Raised e \<Rightarrow> Inl e
      | Returned response \<Rightarrow>
          (case raise_for_status response of
             Inl e \<Rightarrow> Inl e
           | Inr _ \<Rightarrow> Inr (name @ ''_temp'')))"

text \<open>
  \<open>ingest_batch\<close>: the body of the \<open>try\<close> first, then the function itself, whose
  \<open>except Exception\<close> turns every error of the body into a returned dictionary.
\<close>

definition ingest_batch_try ::
  "(request \<Rightarrow> http_outcome) \<Rightarrow> client \<Rightarrow> string \<Rightarrow> json list \<Rightarrow> exn + dict" where
  "ingest_batch_try post self index_name products =
     (case post \<lparr>url = base_url self @ ''/items/'' @ index_name,
                  hdrs = headers self, query_params = [], body = Some (JList products), timeout = Some 30\<rparr> of
        Raised e \<Rightarrow> Inl e
      | Returned response \<Rightarrow>
          (case raise_for_status response of
             Inl e \<Rightarrow> Inl e
           | Inr _ \<Rightarrow>
               (case json_body response of
                  Inl e \<Rightarrow> Inl e
                | Inr data \<Rightarrow> Inr [(''success'', JBool True), (''data'', data)])))"

definition ingest_batch ::
  "(request \<Rightarrow> http_outcome) \<Rightarrow> client \<Rightarrow> string \<Rightarrow> json list \<Rightarrow> exn + dict" where
  "ingest_batch post self index_name products =
     (case ingest_batch_try post self index_name products of
        Inr result \<Rightarrow> Inr result
      | Inl e \<Rightarrow>
          Inr [(''success'', JBool False), (''error'', JStr (str_exn e)),
               (''products'', JList products)])"

definition replace_index ::
  "(request \<Rightarrow> http_outcome) \<Rightarrow> client \<Rightarrow> string \<Rightarrow> string \<Rightarrow> exn + unit" where
  "replace_index post self temp_index final_index =
     (case post \<lparr>url = base_url self @ ''/indices/'' @ temp_index @ ''/replace/'' @ final_index,
                  hdrs = headers self, query_params = [], body = None, timeout = None\<rparr> of
        Raised e \<Rightarrow> Inl e
      | Returned response \<Rightarrow> raise_for_status response)"

section \<open>Ingestion: main\<close>

text \<open>
  What a run of \<open>main\<close> meets outside the program: the decoded products file (or the
  error of opening or decoding it), the clock reading at each call of
  \<open>transform_product\<close>, the remote answers to the index requests and to the upload of
  the batch submitted at each position, and the choices of the scheduler, which decide
  the order in which the uploads complete.
\<close>

record args =
  arg_hashid :: string
  arg_token :: string
  arg_file :: string
  arg_workers :: int
  arg_batch_size :: int
  arg_zone :: string
  arg_index :: string

record world =
  file_json :: "exn + json"
  clock :: "nat \<Rightarrow> pyfloat"
  post_index :: "request \<Rightarrow> http_outcome"
  post_items :: "nat \<Rightarrow> request \<Rightarrow> http_outcome"
  schedule :: "nat list"

text \<open>Iterating over a decoded value, as the list comprehension over \<open>products\<close> does.\<close>

fun py_iter :: "json \<Rightarrow> exn + json list" where
  "py_iter (JList xs) = Inr xs"
| "py_iter (JDict d) = Inr (map JStr (remdups (map fst d)))"
| "py_iter (JStr s) = Inr (map (\<lambda>c. JStr [c]) s)"
| "py_iter _ = Inl (TypeError ''object is not iterable'')"

text \<open>
  \<open>[transform_product(p) for p in products]\<close>: the products in order, the \<open>k\<close>-th call
  reading the clock as \<open>readings k\<close>; the first error ends the comprehension.
\<close>

fun transform_all :: "(nat \<Rightarrow> pyfloat) \<Rightarrow> nat \<Rightarrow> json list \<Rightarrow> exn + json list" where
  "transform_all readings k [] = Inr []"
| "transform_all readings k (p # ps) =
     (case transform_product (readings k) p of
        Inl e \<Rightarrow> Inl e
      | Inr t \<Rightarrow>
          (case transform_all readings (Suc k) ps of
             Inl e \<Rightarrow> Inl e
           | Inr ts \<Rightarrow> Inr (JDict t # ts)))"

text \<open>
  \<open>as_completed\<close> yields every future once, in the order the uploads finish. The
  scheduler's choice picks, among the futures still pending, the one that finishes next.
\<close>

definition next_done :: "nat list \<Rightarrow> nat \<Rightarrow> nat" where
  "next_done sched n = (case sched of [] \<Rightarrow> 0 | c # _ \<Rightarrow> c mod n)"

function as_completed :: "nat list \<Rightarrow> 'a list \<Rightarrow> 'a list" where
  "as_completed sched [] = []"
| "as_completed sched (f # fs) =
     (f # fs) ! next_done sched (Suc (length fs))
       # as_completed (tl sched)
           (take (next_done sched (Suc (length fs))) (f # fs)
              @ drop (Suc (next_done sched (Suc (length fs)))) (f # fs))"
  by pat_completeness auto
termination
proof (relation "measure (\<lambda>(sched, fs). length fs)")
  show "wf (measure (\<lambda>(sched, fs). length fs))" by simp
next
  fix sched :: "nat list" and f :: 'a and fs :: "'a list"
  have "next_done sched (Suc (length fs)) < Suc (length fs)"
    by (simp add: next_done_def split: list.split)
  then show "((tl sched,
               take (next_done sched (Suc (length fs))) (f # fs)
                 @ drop (Suc (next_done sched (Suc (length fs)))) (f # fs)),
              (sched, f # fs)) \<in> measure (\<lambda>(sched, fs). length fs)"
    by simp
qed

text \<open>
  The loop over the completed futures: \<open>future.result()\<close>, then the success count grows
  by \<open>len(result["data"])\<close>, or the error count by \<open>len(result["products"])\<close> and the
  result joins \<open>error_batches\<close>.
\<close>

fun aggregate ::
  "nat \<times> nat \<times> dict list \<Rightarrow> (exn + dict) list \<Rightarrow> exn + nat \<times> nat \<times> dict list" where
  "aggregate acc [] = Inr acc"
| "aggregate (success_count, error_count, error_batches) (future # futures) =
     (case future of
        Inl e \<Rightarrow> Inl e
      | Inr result \<Rightarrow>
          (case dict_item result ''success'' of
             Inl e \<Rightarrow> Inl e
           | Inr ok \<Rightarrow>
               if truthy ok then
                 (case dict_item result ''data'' of
                    Inl e \<Rightarrow> Inl e
                  | Inr data \<Rightarrow>
                      (case py_len data of
                         Inl e \<Rightarrow> Inl e
                       | Inr n \<Rightarrow>
                           aggregate (success_count + n, error_count, error_batches) futures))
               else
                 (case dict_item result ''products'' of
                    Inl e \<Rightarrow> Inl e
                  | Inr products \<Rightarrow>
                      (case py_len products of
                         Inl e \<Rightarrow> Inl e
                       | Inr n \<Rightarrow>
                           aggregate (success_count, error_count + n,
                                      error_batches @ [result]) futures))))"

text \<open>
  \<open>futures = [executor.submit(client.ingest_batch, temp_index, batch) for batch in
  batches]\<close>: one upload for each batch; the upload submitted at position \<open>i\<close> gets the
  answer \<open>post_items w i\<close>.
\<close>

definition submit_all ::
  "world \<Rightarrow> client \<Rightarrow> string \<Rightarrow> json list list \<Rightarrow> (exn + dict) list" where
  "submit_all w self temp_index bs =
     map (\<lambda>(i, batch). ingest_batch (post_items w i) self temp_index batch) (enumerate 0 bs)"

text \<open>
  What a run shows: the remote operations it invoked (the uploads in the order of
  submission), every dispatched batch with the result of its upload, the report as it
  stands when the loop over the futures has ended (none when the run does not get
  there), and the error, if any, that makes \<open>main\<close> exit with code 1.
\<close>

datatype call =
    CreateTemporaryIndex string
  | IngestBatch string "json list"
  | ReplaceIndex string string

record report =
  total_products :: nat
  successful_imports :: nat
  failed_imports :: nat
  error_details :: "dict list"

record run =
  calls :: "call list"
  dispatched :: "(json list \<times> (exn + dict)) list"
  counted :: "report option"
  critical_error :: "exn option"

definition aborted :: "call list \<Rightarrow> exn \<Rightarrow> run" where
  "aborted cs e = \<lparr>calls = cs, dispatched = [], counted = None, critical_error = Some e\<rparr>"

definition main :: "args \<Rightarrow> world \<Rightarrow> run" where
  "main a w =
     (let self = DoofinderIngestion (arg_hashid a) (arg_token a) (arg_zone a)
                   (arg_batch_size a)
      in case file_json w of Inl e \<Rightarrow> aborted [] e | Inr loaded \<Rightarrow>
         case py_iter loaded of Inl e \<Rightarrow> aborted [] e | Inr products \<Rightarrow>
         case transform_all (clock w) 0 products of Inl e \<Rightarrow> aborted [] e
         | Inr transformed_products \<Rightarrow>
         case batches (arg_batch_size a) transformed_products of Inl e \<Rightarrow> aborted [] e
         | Inr bs \<Rightarrow>
         case create_temporary_index (post_index w) self (arg_index a) of
           Inl e \<Rightarrow> aborted [CreateTemporaryIndex (arg_index a)] e
         | Inr temp_index \<Rightarrow>
         if arg_workers a \<le> 0 then
           aborted [CreateTemporaryIndex (arg_index a)]
             (ValueError ''max_workers must be greater than 0'')
         else
           let futures = submit_all w self temp_index bs;
               sent = CreateTemporaryIndex (arg_index a) # map (IngestBatch temp_index) bs
           in case aggregate (0, 0, []) (as_completed (schedule w) futures) of
                Inl e \<Rightarrow>
                  \<lparr>calls = sent, dispatched = zip bs futures, counted = None,
                   critical_error = Some e\<rparr>
              | Inr (success_count, error_count, error_batches) \<Rightarrow>
                  let rep = \<lparr>total_products = length transformed_products,
                             successful_imports = success_count,
                             failed_imports = error_count,
                             error_details = error_batches\<rparr>
                  in if 0 < success_count then
                       \<lparr>calls = sent @ [ReplaceIndex temp_index (arg_index a)],
                        dispatched = zip bs futures,
                        counted = Some rep,
                        critical_error =
                          (case replace_index (post_index w) self temp_index (arg_index a) of
                             Inl e \<Rightarrow> Some e
                           | Inr _ \<Rightarrow> None)\<rparr>
                     else
                       \<lparr>calls = sent, dispatched = zip bs futures, counted = Some rep,
                        critical_error = None\<rparr>)"

text \<open>
  Reading a batch result as the loop does: the truth of \<open>result["success"]\<close>, the count
  \<open>len(result["data"])\<close> that a success adds and the count \<open>len(result["products"])\<close> that
  a failure adds (0 where the loop would raise instead).
\<close>

definition batch_succeeded :: "exn + dict \<Rightarrow> bool" where
  "batch_succeeded future =
     (case future of
        Inl e \<Rightarrow> False
      | Inr result \<Rightarrow> (case map_of result ''success'' of None \<Rightarrow> False | Some ok \<Rightarrow> truthy ok))"

definition counted_items :: "string \<Rightarrow> exn + dict \<Rightarrow> nat" where
  "counted_items key future =
     (case future of
        Inl e \<Rightarrow> 0
      | Inr result \<Rightarrow>
          (case map_of result key of
             None \<Rightarrow> 0
           | Some v \<Rightarrow> (case py_len v of Inl e \<Rightarrow> 0 | Inr n \<Rightarrow> n)))"

definition replace_invoked :: "run \<Rightarrow> bool" where
  "replace_invoked r = (\<exists>c \<in> set (calls r). case c of ReplaceIndex t f \<Rightarrow> True | _ \<Rightarrow> False)"

text \<open>The client that \<open>main\<close> builds from its arguments.\<close>

definition the_client :: "args \<Rightarrow> client" where
  "the_client a = DoofinderIngestion (arg_hashid a) (arg_token a) (arg_zone a) (arg_batch_size a)"


text \<open>
  A run to evaluate: five workers, batches of 100, a remote service that accepts every
  request and answers each upload with the same payload, and a clock that stands at
  1730000000.25.
\<close>

definition demo_args :: args where
  "demo_args = \<lparr>arg_hashid = ''h'', arg_token = ''t'', arg_file = ''products.json'',
                 arg_workers = 5, arg_batch_size = 100, arg_zone = ''eu1'',
                 arg_index = ''product''\<rparr>"

definition demo_world :: "json list \<Rightarrow> json \<Rightarrow> world" where
  "demo_world products payload =
     \<lparr>file_json = Inr (JList products),
      clock = (\<lambda>k. Finite False [1, 7, 3, 0, 0, 0, 0, 0, 0, 0, 2, 5] 10),
      post_index = (\<lambda>q. Returned \<lparr>status_code = 200, http_error = [], json_body = Inr JNull\<rparr>),
      post_items = (\<lambda>i q. Returned \<lparr>status_code = 200, http_error = [],
                                        json_body = Inr payload\<rparr>),
      schedule = []\<rparr>"

section \<open>Search: the query builder\<close>

definition DoofinderSearch :: "string \<Rightarrow> string \<Rightarrow> string \<Rightarrow> api_client" where
  "DoofinderSearch h k z =
     \<lparr>hashid = h, api_key = k, search_zone = z,
      base_url = ''https://'' @ z @ ''-search.doofinder.com/6/'' @ h,
      headers = [(''Authorization'', JStr (''Token '' @ k))]\<rparr>"

text \<open>
  The loops of \<open>search\<close> that write the filters: over the items of the conditions of one
  field, and over the items of \<open>filters\<close>.
\<close>

fun search_conditions :: "dict \<Rightarrow> string \<Rightarrow> dict \<Rightarrow> dict" where
  "search_conditions params field [] = params"
| "search_conditions params field ((op, v) # conditions) =
     search_conditions (dict_set params (''filter['' @ field @ '']['' @ op @ '']'') v)
       field conditions"

fun search_filters :: "dict \<Rightarrow> dict \<Rightarrow> dict" where
  "search_filters params [] = params"
| "search_filters params ((field, conditions) # filters) =
     search_filters
       (case conditions of
          JDict ops \<Rightarrow> search_conditions params field ops
        | _ \<Rightarrow> dict_set params (''filter['' @ field @ ''][]'') conditions)
       filters"

text \<open>The loops over \<open>enumerate(sort)\<close> and over \<open>enumerate(facets)\<close>.\<close>

fun sort_fields :: "dict \<Rightarrow> nat \<Rightarrow> dict \<Rightarrow> dict" where
  "sort_fields params idx [] = params"
| "sort_fields params idx ((field, direction) # sort_param) =
     sort_fields (dict_set params (''sort['' @ str_nat idx @ '']['' @ field @ '']'') direction)
       idx sort_param"

fun search_sort :: "dict \<Rightarrow> nat \<Rightarrow> json list \<Rightarrow> exn + dict" where
  "search_sort params idx [] = Inr params"
| "search_sort params idx (sort_param # sorts) =
     (case sort_param of
        JDict d \<Rightarrow> search_sort (sort_fields params idx d) (Suc idx) sorts
      | _ \<Rightarrow> Inl (AttributeError ''object has no attribute items''))"

fun facet_keys :: "dict \<Rightarrow> nat \<Rightarrow> dict \<Rightarrow> dict" where
  "facet_keys params idx [] = params"
| "facet_keys params idx ((key, v) # facet) =
     facet_keys (dict_set params (''facets['' @ str_nat idx @ '']['' @ key @ '']'') v)
       idx facet"

fun search_facets :: "dict \<Rightarrow> nat \<Rightarrow> json list \<Rightarrow> exn + dict" where
  "search_facets params idx [] = Inr params"
| "search_facets params idx (facet # facets) =
     (case facet of
        JDict d \<Rightarrow> search_facets (facet_keys params idx d) (Suc idx) facets
      | _ \<Rightarrow> Inl (AttributeError ''object has no attribute items''))"

text \<open>
  The parameters that \<open>search\<close> builds. An optional argument left out is \<open>None\<close>, here
  \<open>JNull\<close>; \<open>sorts\<close> is the argument \<open>sort\<close>; \<open>session\<close> is the text \<open>str(uuid4())\<close> of the identifier drawn at this call.
  A truthy \<open>filters\<close> that is no dictionary has no \<open>items\<close>.
\<close>

definition search_params ::
  "string \<Rightarrow> string \<Rightarrow> int \<Rightarrow> int \<Rightarrow> json \<Rightarrow> json \<Rightarrow> json \<Rightarrow> json \<Rightarrow> json \<Rightarrow> exn + dict" where
  "search_params session query page rpp indices filters sorts facets query_name =
     (let p0 = [(''query'', JStr query), (''page'', JInt page), (''rpp'', JInt rpp),
                (''session_id'', JStr session)];
          p1 = (if truthy indices then dict_set p0 ''indices[]'' indices else p0)
      in case (if truthy filters then
                 (case filters of
                    JDict fs \<Rightarrow> Inr (search_filters p1 fs)
                  | _ \<Rightarrow> Inl (AttributeError ''object has no attribute items''))
               else Inr p1) of
           Inl e \<Rightarrow> Inl e
         | Inr p2 \<Rightarrow>
         case (if truthy sorts then
                 (case py_iter sorts of Inl e \<Rightarrow> Inl e | Inr entries \<Rightarrow> search_sort p2 0 entries)
               else Inr p2) of
           Inl e \<Rightarrow> Inl e
         | Inr p3 \<Rightarrow>
         case (if truthy facets then
                 (case py_iter facets of
                    Inl e \<Rightarrow> Inl e
                  | Inr entries \<Rightarrow> search_facets p3 0 entries)
               else Inr p3) of
           Inl e \<Rightarrow> Inl e
         | Inr p4 \<Rightarrow>
         Inr (if truthy query_name then dict_set p4 ''query_name'' query_name else p4))"

text \<open>
  A GET request with its answer: the request may raise, \<open>raise_for_status\<close> may raise,
  and the decoded body is the result.
\<close>

definition get_json :: "(request \<Rightarrow> http_outcome) \<Rightarrow> request \<Rightarrow> exn + json" where
  "get_json http q =
     (case http q of
        Raised e \<Rightarrow> Inl e
      | Returned response \<Rightarrow>
          (case raise_for_status response of
             Inl e \<Rightarrow> Inl e
           | Inr _ \<Rightarrow> json_body response))"

definition search ::
  "(request \<Rightarrow> http_outcome) \<Rightarrow> api_client \<Rightarrow> string \<Rightarrow> string \<Rightarrow> int \<Rightarrow> int
     \<Rightarrow> json \<Rightarrow> json \<Rightarrow> json \<Rightarrow> json \<Rightarrow> json \<Rightarrow> exn + json" where
  "search http self session query page rpp indices filters sorts facets query_name =
     (case search_params session query page rpp indices filters sorts facets query_name of
        Inl e \<Rightarrow> Inl e
      | Inr ps \<Rightarrow>
          get_json http \<lparr>url = base_url self @ ''/_search'', hdrs = headers self,
                          query_params = ps, body = None, timeout = None\<rparr>)"

definition suggest_params :: "string \<Rightarrow> string \<Rightarrow> json \<Rightarrow> dict" where
  "suggest_params session query indices =
     (let p0 = [(''query'', JStr query), (''session_id'', JStr session)]
      in if truthy indices then dict_set p0 ''indices[]'' indices else p0)"

definition suggest ::
  "(request \<Rightarrow> http_outcome) \<Rightarrow> api_client \<Rightarrow> string \<Rightarrow> string \<Rightarrow> json \<Rightarrow> exn + json" where
  "suggest http self session query indices =
     get_json http \<lparr>url = base_url self @ ''/_suggest'', hdrs = headers self,
                     query_params = suggest_params session query indices,
                     body = None, timeout = None\<rparr>"

text \<open>The filter loops of \<open>similar_products\<close>, from its own lines.\<close>

fun similar_conditions :: "dict \<Rightarrow> string \<Rightarrow> dict \<Rightarrow> dict" where
  "similar_conditions params field [] = params"
| "similar_conditions params field ((op, v) # conditions) =
     similar_conditions (dict_set params (''filter['' @ field @ '']['' @ op @ '']'') v)
       field conditions"

fun similar_filters :: "dict \<Rightarrow> dict \<Rightarrow> dict" where
  "similar_filters params [] = params"
| "similar_filters params ((field, conditions) # filters) =
     similar_filters
       (case conditions of
          JDict ops \<Rightarrow> similar_conditions params field ops
        | _ \<Rightarrow> dict_set params (''filter['' @ field @ ''][]'') conditions)
       filters"

definition similar_products_params ::
  "string \<Rightarrow> string \<Rightarrow> int \<Rightarrow> bool \<Rightarrow> json \<Rightarrow> exn + dict" where
  "similar_products_params session product_id rpp exclude_self filters =
     (let p0 = [(''dfid'', JStr product_id), (''rpp'', JInt rpp),
                (''exclude_self'', JBool exclude_self), (''session_id'', JStr session)]
      in if truthy filters then
           (case filters of
              JDict fs \<Rightarrow> Inr (similar_filters p0 fs)
            | _ \<Rightarrow> Inl (AttributeError ''object has no attribute items''))
         else Inr p0)"

definition similar_products ::
  "(request \<Rightarrow> http_outcome) \<Rightarrow> api_client \<Rightarrow> string \<Rightarrow> string \<Rightarrow> int \<Rightarrow> bool \<Rightarrow> json
     \<Rightarrow> exn + json" where
  "similar_products http self session product_id rpp exclude_self filters =
     (case similar_products_params session product_id rpp exclude_self filters of
        Inl e \<Rightarrow> Inl e
      | Inr ps \<Rightarrow>
          get_json http \<lparr>url = base_url self @ ''/_visually_similar'', hdrs = headers self,
                          query_params = ps, body = None, timeout = None\<rparr>)"

text \<open>The parameters of a request whose name starts with a given text.\<close>

definition params_named :: "string \<Rightarrow> dict \<Rightarrow> dict" where
  "params_named pre ps = filter (\<lambda>(k, v). take (length pre) k = pre) ps"

text \<open>
  The encoding in the words of the specification: a filter on a field with a mapping of
  operators gives one parameter \<open>filter[field][op]=value\<close> for each operator, a filter
  with any other value gives \<open>filter[field][]=value\<close>; the entry at position \<open>i\<close> of a
  sort or facet list gives \<open>sort[i][key]=value\<close>, or \<open>facets[i][key]=value\<close>, for each of
  its keys.
\<close>

fun filter_entry :: "string \<times> json \<Rightarrow> dict" where
  "filter_entry (field, JDict ops) =
     map (\<lambda>(op, v). (''filter['' @ field @ '']['' @ op @ '']'', v)) ops"
| "filter_entry (field, c) = [(''filter['' @ field @ ''][]'', c)]"

definition filter_spec :: "dict \<Rightarrow> dict" where
  "filter_spec filters = concat (map filter_entry filters)"

definition indexed_spec :: "string \<Rightarrow> nat \<Rightarrow> dict list \<Rightarrow> dict" where
  "indexed_spec name start entries =
     concat (map (\<lambda>(i, d). map (\<lambda>(k, v). (name @ ''['' @ str_nat i @ '']['' @ k @ '']'', v)) d)
               (enumerate start entries))"

text \<open>Writing a list of parameters one after the other.\<close>

fun write_all :: "dict \<Rightarrow> dict \<Rightarrow> dict" where
  "write_all params [] = params"
| "write_all params ((k, v) # kvs) = write_all (dict_set params k v) kvs"

text \<open>The number that a text of decimal digits writes.\<close>

definition digits_value :: "string \<Rightarrow> nat" where
  "digits_value s = foldl (\<lambda>a c. 10 * a + (of_char c - 48)) 0 s"

text \<open>
  The first parameters of \<open>search\<close>: the four it starts from and \<open>indices[]\<close> when
  \<open>indices\<close> is given.
\<close>

definition search_base :: "string \<Rightarrow> string \<Rightarrow> int \<Rightarrow> int \<Rightarrow> json \<Rightarrow> dict" where
  "search_base session query page rpp indices =
     write_all [(''query'', JStr query), (''page'', JInt page), (''rpp'', JInt rpp),
                (''session_id'', JStr session)]
       (if truthy indices then [(''indices[]'', indices)] else [])"

section \<open>Properties of transform\_product\<close>

lemma dict_item_present: "map_of d k = Some v \<Longrightarrow> dict_item d k = Inr v"
  by (simp add: dict_item_def)

lemma dict_item_absent: "map_of d k = None \<Longrightarrow> dict_item d k = Inl (KeyError k)"
  by (simp add: dict_item_def)

lemma has_key_map_of: "(k \<in> fst ` set d) = (\<exists>v. map_of d k = Some v)"
  by (metis domIff dom_map_of_conv_image_fst not_Some_eq)

text \<open>The text of a float is never empty, whatever the float.\<close>

lemma str_float_nonempty: "str_float x \<noteq> []"
  by (cases x) simp_all

lemma digit_chars:
  "digit_char 0 = CHR ''0''" "digit_char (Suc 0) = CHR ''1''" "digit_char 2 = CHR ''2''"
  "digit_char 3 = CHR ''3''" "digit_char 4 = CHR ''4''" "digit_char 5 = CHR ''5''"
  "digit_char 6 = CHR ''6''" "digit_char 7 = CHR ''7''" "digit_char 8 = CHR ''8''"
  "digit_char 9 = CHR ''9''"
  by code_simp+

lemma str_float_demo: "str_float (Finite False [1, 7, 3, 0, 0, 0, 0, 0, 0, 0, 2, 5] 10)
    = ''1730000000.25''"
  by (simp add: digit_chars)

text \<open>
  C3. A record with a \<open>title\<close> is always transformed: the result carries \<open>title\<close> and the
  seven derived fields, in the order of the source. \<open>id\<close> is \<open>platform_id\<close> when the
  record has one and otherwise the text of the clock reading, which is never empty;
  \<open>description\<close>, \<open>image_url\<close>, \<open>link\<close>, \<open>price\<close> and \<open>categories\<close> are the record's
  \<open>description\<close>, \<open>image_url\<close>, \<open>url\<close>, \<open>price\<close> and \<open>category\<close> when it has them and
  otherwise the empty string, the empty string, the empty string, 0.0 and the empty list;
  \<open>availability\<close> is the literal "in stock" whatever the record holds.
\<close>

theorem transform_product_defaults:
  assumes title: "''title'' \<in> fst ` set product"
  shows "\<exists>out. transform_product now (JDict product) = Inr out
     \<and> map fst out = [''id'', ''title'', ''description'', ''image_url'', ''link'',
                       ''price'', ''categories'', ''availability'']
     \<and> map_of out ''title'' = map_of product ''title''
     \<and> (map_of product ''platform_id'' = None \<longrightarrow>
           map_of out ''id'' = Some (JStr (str_float now)) \<and> str_float now \<noteq> [])
     \<and> (\<forall>v. map_of product ''platform_id'' = Some v \<longrightarrow> map_of out ''id'' = Some v)
     \<and> (map_of product ''description'' = None \<longrightarrow>
           map_of out ''description'' = Some (JStr []))
     \<and> (\<forall>v. map_of product ''description'' = Some v \<longrightarrow>
           map_of out ''description'' = Some v)
     \<and> (map_of product ''image_url'' = None \<longrightarrow>
           map_of out ''image_url'' = Some (JStr []))
     \<and> (\<forall>v. map_of product ''image_url'' = Some v \<longrightarrow>
           map_of out ''image_url'' = Some v)
     \<and> (map_of product ''url'' = None \<longrightarrow> map_of out ''link'' = Some (JStr []))
     \<and> (\<forall>v. map_of product ''url'' = Some v \<longrightarrow> map_of out ''link'' = Some v)
     \<and> (map_of product ''price'' = None \<longrightarrow> map_of out ''price'' = Some (JFloat 0))
     \<and> (\<forall>v. map_of product ''price'' = Some v \<longrightarrow> map_of out ''price'' = Some v)
     \<and> (map_of product ''category'' = None \<longrightarrow>
           map_of out ''categories'' = Some (JList []))
     \<and> (\<forall>v. map_of product ''category'' = Some v \<longrightarrow>
           map_of out ''categories'' = Some v)
     \<and> map_of out ''availability'' = Some (JStr ''in stock'')"
proof -
  from title obtain t where t: "map_of product ''title'' = Some t"
    by (auto simp: has_key_map_of)
  show ?thesis
    using str_float_nonempty [of now]
    by (simp add: t dict_item_present dict_get_def del: str_float.simps)
qed

theorem transform_product_defaults_witness:
  "\<exists>out. transform_product (Finite False [1, 7, 3, 0, 0, 0, 0, 0, 0, 0, 2, 5] 10)
            (JDict [(''title'', JStr ''Mug''), (''price'', JInt 7)]) = Inr out
     \<and> map_of out ''id'' = Some (JStr ''1730000000.25'')
     \<and> map_of out ''description'' = Some (JStr [])
     \<and> map_of out ''price'' = Some (JInt 7)
     \<and> map_of out ''categories'' = Some (JList [])
     \<and> map_of out ''availability'' = Some (JStr ''in stock'')"
  using transform_product_defaults
          [of "[(''title'', JStr ''Mug''), (''price'', JInt 7)]"
              "Finite False [1, 7, 3, 0, 0, 0, 0, 0, 0, 0, 2, 5] 10"]
  by (simp add: dict_item_def dict_get_def str_float_demo [unfolded One_nat_def]
        del: str_float.simps)

text \<open>
  C4. On a record (a dictionary), \<open>transform_product\<close> fails exactly when the key
  \<open>title\<close> is missing, and then with the KeyError of that key; any record that has the
  key is transformed.
\<close>

theorem transform_product_fails_iff_no_title:
  "(\<exists>e. transform_product now (JDict product) = Inl e) = (''title'' \<notin> fst ` set product)
   \<and> (''title'' \<notin> fst ` set product \<longrightarrow>
        transform_product now (JDict product) = Inl (KeyError ''title''))
   \<and> (''title'' \<in> fst ` set product \<longrightarrow>
        (\<exists>out. transform_product now (JDict product) = Inr out))"
proof (cases "map_of product ''title''")
  case None
  then have "''title'' \<notin> fst ` set product"
    by (simp add: has_key_map_of)
  with None show ?thesis
    by (simp add: dict_item_absent)
next
  case (Some t)
  then have "''title'' \<in> fst ` set product"
    by (auto simp: has_key_map_of)
  with Some show ?thesis
    by (simp add: dict_item_present)
qed

theorem transform_product_fails_iff_no_title_witness:
  "transform_product (Finite False [1, 7, 3] 3) (JDict [(''price'', JInt 3)])
     = Inl (KeyError ''title'')
   \<and> (\<exists>out. transform_product (Finite False [1, 7, 3] 3)
               (JDict [(''title'', JStr ''Mug'')]) = Inr out)"
  using transform_product_fails_iff_no_title
          [of "Finite False [1, 7, 3] 3" "[(''price'', JInt 3)]"]
        transform_product_fails_iff_no_title
          [of "Finite False [1, 7, 3] 3" "[(''title'', JStr ''Mug'')]"]
  by (simp add: dict_item_def)

section \<open>Properties of the batches\<close>

lemma range_length_pos:
  assumes "0 < s"
  shows "range_length 0 (int n) (int s) = batch_count n s"
proof (cases "n = 0")
  case True
  then show ?thesis by (simp add: range_length_def batch_count_def)
next
  case False
  then obtain m where n: "n = Suc m" by (cases n) auto
  have "(int n - 1) div int s = int (m div s)"
    unfolding n by (simp add: zdiv_int)
  then have "nat ((int n - 1) div int s + 1) = m div s + 1"
    by (simp only: nat_int_add nat_int flip: of_nat_Suc Suc_eq_plus1)
  moreover have "range_length 0 (int n) (int s) = nat ((int n - 1) div int s + 1)"
    using assms n by (simp add: range_length_def)
  moreover have "batch_count n s = m div s + 1"
    by (simp add: batch_count_def n)
  ultimately show ?thesis by simp
qed

lemma batch_count_covers:
  assumes "0 < s"
  shows "n \<le> batch_count n s * s"
proof (cases "n = 0")
  case True
  then show ?thesis by simp
next
  case False
  have "(n - 1) mod s < s" using assms by simp
  moreover have "n - 1 = (n - 1) div s * s + (n - 1) mod s" by simp
  ultimately have "n - 1 < (n - 1) div s * s + s" by linarith
  with False show ?thesis by (simp add: batch_count_def)
qed

lemma batch_count_start:
  assumes "k < batch_count n s"
  shows "k * s < n"
proof -
  from assms have n: "n \<noteq> 0" and k: "k \<le> (n - 1) div s"
    by (auto simp: batch_count_def split: if_splits)
  from k have "k * s \<le> (n - 1) div s * s" by simp
  also have "\<dots> \<le> n - 1" by (simp add: div_times_less_eq_dividend)
  finally show ?thesis using n by simp
qed

lemma py_slice_window: "py_slice xs (int a) (int a + int s) = take s (drop a xs)"
proof -
  have "slice_index (length xs) (int a) = min a (length xs)"
    by (simp add: slice_index_def)
  moreover have "slice_index (length xs) (int a + int s) = min (a + s) (length xs)"
    by (simp add: slice_index_def nat_add_distrib)
  ultimately show ?thesis
    by (cases "a + s \<le> length xs") (auto simp: py_slice_def min_def)
qed

lemma batches_pos:
  assumes "0 < s"
  shows "batches (int s) xs =
           Inr (map (\<lambda>k. take s (drop (k * s) xs)) [0..<batch_count (length xs) s])"
proof -
  have "py_slice xs (int k * int s) (int k * int s + int s) = take s (drop (k * s) xs)" for k
    using py_slice_window [of xs "k * s" s] by simp
  with assms show ?thesis
    by (simp add: batches_def py_range_def range_length_pos o_def)
qed

lemma concat_windows:
  "concat (map (\<lambda>k. take s (drop (k * s) xs)) [0..<m]) = take (m * s) xs"
proof (induction m)
  case 0
  then show ?case by simp
next
  case (Suc m)
  have "take (m * s) xs @ take s (drop (m * s) xs) = take (m * s + s) xs"
    by (simp add: take_add)
  with Suc show ?case by (simp add: add.commute)
qed

lemma batch_count_ceiling:
  assumes "0 < s"
  shows "int (batch_count n s) = \<lceil>real n / real s\<rceil>"
proof -
  let ?m = "batch_count n s"
  have up: "real n \<le> real ?m * real s"
    using batch_count_covers [OF assms, of n] by (metis of_nat_mult of_nat_le_iff)
  have lo: "(real ?m - 1) * real s < real n"
  proof (cases "?m = 0")
    case True
    then show ?thesis using assms
      by (simp add: batch_count_def split: if_splits)
  next
    case False
    then have "?m - 1 < ?m" by simp
    then have "(?m - 1) * s < n" by (rule batch_count_start)
    then have "real ((?m - 1) * s) < real n" by (simp only: of_nat_less_iff)
    moreover have "real (?m - 1) = real ?m - 1" using False by (simp add: of_nat_diff)
    ultimately show ?thesis by simp
  qed
  have "\<lceil>real n / real s\<rceil> = int ?m"
  proof (rule ceiling_unique)
    show "real_of_int (int ?m) - 1 < real n / real s"
      using lo assms by (simp add: pos_less_divide_eq)
    show "real n / real s \<le> real_of_int (int ?m)"
      using up assms by (simp add: pos_divide_le_eq)
  qed
  then show ?thesis by simp
qed

lemma batches_concat:
  assumes "0 < S" and "batches S xs = Inr bs"
  shows "concat bs = xs"
proof -
  from assms(1) obtain s where s: "S = int s" "0 < s"
    using zero_less_imp_eq_int by blast
  from assms(2) have "bs = map (\<lambda>k. take s (drop (k * s) xs)) [0..<batch_count (length xs) s]"
    unfolding s by (simp add: batches_pos [OF s(2)])
  then show ?thesis
    using batch_count_covers [OF s(2), of "length xs"] by (simp add: concat_windows)
qed

text \<open>
  C5. For a batch size \<open>S > 0\<close> the batches are computed without error; put end to end,
  in order, they are the transformed list itself; no batch is longer than \<open>S\<close>, every
  batch but the last holds exactly \<open>S\<close> items, and \<open>N\<close> items give \<open>ceil(N/S)\<close> batches.
\<close>

theorem batches_partition:
  assumes "0 < S"
  shows "\<exists>bs. batches S xs = Inr bs
     \<and> concat bs = xs
     \<and> (\<forall>b \<in> set bs. length b \<le> nat S)
     \<and> (\<forall>k. Suc k < length bs \<longrightarrow> length (bs ! k) = nat S)
     \<and> int (length bs) = \<lceil>real (length xs) / real_of_int S\<rceil>"
proof -
  from assms obtain s where s: "S = int s" "0 < s"
    using zero_less_imp_eq_int by blast
  let ?n = "length xs"
  let ?m = "batch_count ?n s"
  let ?bs = "map (\<lambda>k. take s (drop (k * s) xs)) [0..<?m]"
  have run: "batches S xs = Inr ?bs"
    unfolding s by (rule batches_pos [OF s(2)])
  have whole: "concat ?bs = xs"
    using batch_count_covers [OF s(2), of ?n] by (simp add: concat_windows)
  have bound: "\<forall>b \<in> set ?bs. length b \<le> nat S"
    by (auto simp: s)
  have full: "length (?bs ! k) = nat S" if "Suc k < length ?bs" for k
  proof -
    from that have "Suc k < ?m" by simp
    then have "Suc k * s < ?n" by (rule batch_count_start)
    then have "s \<le> ?n - k * s" by simp
    moreover from that have "?bs ! k = take s (drop (k * s) xs)" by simp
    ultimately show ?thesis by (simp add: s)
  qed
  have count: "int (length ?bs) = \<lceil>real ?n / real_of_int S\<rceil>"
    using batch_count_ceiling [OF s(2), of ?n] by (simp add: s)
  from run whole bound full count show ?thesis by blast
qed

theorem batches_partition_witness:
  "\<exists>bs. batches 2 [1, 2, 3, 4, 5 :: nat] = Inr bs \<and> concat bs = [1, 2, 3, 4, 5]
     \<and> length bs = 3 \<and> length (bs ! 0) = 2 \<and> length (bs ! 1) = 2 \<and> length (bs ! 2) = 1"
proof -
  have ev: "batches 2 [1, 2, 3, 4, 5 :: nat] = Inr [[1, 2], [3, 4], [5]]"
    by (simp add: batches_def py_range_def range_length_def py_slice_def slice_index_def
          upt_conv_Cons)
  from batches_partition [of 2 "[1, 2, 3, 4, 5 :: nat]"] show ?thesis
    unfolding ev by simp
qed

section \<open>Properties of ingest\_batch\<close>

lemma ingest_batch_try_cases:
  "(\<exists>data. ingest_batch_try post self index_name products
             = Inr [(''success'', JBool True), (''data'', data)])
   \<or> (\<exists>e. ingest_batch_try post self index_name products = Inl e)"
  by (simp add: ingest_batch_try_def split: http_outcome.split sum.split)

text \<open>
  C9. \<open>ingest_batch\<close> always returns. When the upload is answered with a status outside
  400 to 599 and a body that decodes, the result is the success dictionary carrying the
  decoded payload; when the request raises (no connection, timeout), the status is an
  error status, or the body does not decode, the result is the failure dictionary
  carrying the text of the error and the batch it was given. A result holds either
  \<open>data\<close>, or \<open>error\<close> and \<open>products\<close>: never both, never neither.
\<close>

theorem ingest_batch_never_raises:
  "\<exists>result. ingest_batch post self index_name products = Inr result
     \<and> (\<forall>e. post \<lparr>url = base_url self @ ''/items/'' @ index_name, hdrs = headers self,
                     query_params = [], body = Some (JList products), timeout = Some 30\<rparr>
                = Raised e \<longrightarrow>
            result = [(''success'', JBool False), (''error'', JStr (str_exn e)),
                      (''products'', JList products)])
     \<and> (\<forall>r. post \<lparr>url = base_url self @ ''/items/'' @ index_name, hdrs = headers self,
                     query_params = [], body = Some (JList products), timeout = Some 30\<rparr>
                = Returned r
              \<and> 400 \<le> status_code r \<and> status_code r < 600 \<longrightarrow>
            result = [(''success'', JBool False), (''error'', JStr (http_error r)),
                      (''products'', JList products)])
     \<and> (\<forall>r data. post \<lparr>url = base_url self @ ''/items/'' @ index_name, hdrs = headers self,
                     query_params = [], body = Some (JList products), timeout = Some 30\<rparr>
                = Returned r
              \<and> \<not> (400 \<le> status_code r \<and> status_code r < 600)
              \<and> json_body r = Inr data \<longrightarrow>
            result = [(''success'', JBool True), (''data'', data)])
     \<and> (\<forall>r e. post \<lparr>url = base_url self @ ''/items/'' @ index_name, hdrs = headers self,
                     query_params = [], body = Some (JList products), timeout = Some 30\<rparr>
                = Returned r
              \<and> \<not> (400 \<le> status_code r \<and> status_code r < 600)
              \<and> json_body r = Inl e \<longrightarrow>
            result = [(''success'', JBool False), (''error'', JStr (str_exn e)),
                      (''products'', JList products)])
     \<and> ((\<exists>data. result = [(''success'', JBool True), (''data'', data)])
          \<or> (\<exists>e. result = [(''success'', JBool False), (''error'', JStr (str_exn e)),
                             (''products'', JList products)]))
     \<and> ((''data'' \<in> fst ` set result)
            \<noteq> (''error'' \<in> fst ` set result \<and> ''products'' \<in> fst ` set result))
     \<and> ((''error'' \<in> fst ` set result) = (''products'' \<in> fst ` set result))"
proof -
  let ?req = "\<lparr>url = base_url self @ ''/items/'' @ index_name, hdrs = headers self,
               query_params = [], body = Some (JList products), timeout = Some 30\<rparr>"
  show ?thesis
  proof (cases "post ?req")
    case (Raised e)
    then show ?thesis
      by (auto simp: ingest_batch_def ingest_batch_try_def)
  next
    case (Returned r)
    show ?thesis
    proof (cases "400 \<le> status_code r \<and> status_code r < 600")
      case True
      with Returned show ?thesis
        by (auto simp: ingest_batch_def ingest_batch_try_def raise_for_status_def
              intro: exI [of _ "HTTPError (http_error r)"])
    next
      case False
      with Returned show ?thesis
        by (cases "json_body r")
           (auto simp: ingest_batch_def ingest_batch_try_def raise_for_status_def)
    qed
  qed
qed

theorem ingest_batch_never_raises_witness:
  "ingest_batch (\<lambda>q. Raised (RequestException ''timed out''))
       (DoofinderIngestion ''h'' ''k'' ''eu1'' 100) ''product_temp'' [JDict [(''id'', JInt 1)]]
     = Inr [(''success'', JBool False), (''error'', JStr ''timed out''),
            (''products'', JList [JDict [(''id'', JInt 1)]])]
   \<and> ingest_batch
       (\<lambda>q. Returned \<lparr>status_code = 200, http_error = [], json_body = Inr (JList [JInt 1])\<rparr>)
       (DoofinderIngestion ''h'' ''k'' ''eu1'' 100) ''product_temp'' [JDict [(''id'', JInt 1)]]
     = Inr [(''success'', JBool True), (''data'', JList [JInt 1])]
   \<and> ingest_batch
       (\<lambda>q. Returned \<lparr>status_code = 204, http_error = [],
                          json_body = Inl (JSONDecodeError ''Expecting value'')\<rparr>)
       (DoofinderIngestion ''h'' ''k'' ''eu1'' 100) ''product_temp'' [JDict [(''id'', JInt 1)]]
     = Inr [(''success'', JBool False), (''error'', JStr ''Expecting value''),
            (''products'', JList [JDict [(''id'', JInt 1)]])]"
  using ingest_batch_never_raises [of "\<lambda>q. Raised (RequestException ''timed out'')"
          "DoofinderIngestion ''h'' ''k'' ''eu1'' 100" "''product_temp''"
          "[JDict [(''id'', JInt 1)]]"]
        ingest_batch_never_raises
          [of "\<lambda>q. Returned \<lparr>status_code = 200, http_error = [],
                               json_body = Inr (JList [JInt 1])\<rparr>"
          "DoofinderIngestion ''h'' ''k'' ''eu1'' 100" "''product_temp''"
          "[JDict [(''id'', JInt 1)]]"]
        ingest_batch_never_raises
          [of "\<lambda>q. Returned \<lparr>status_code = 204, http_error = [],
                               json_body = Inl (JSONDecodeError ''Expecting value'')\<rparr>"
          "DoofinderIngestion ''h'' ''k'' ''eu1'' 100" "''product_temp''"
          "[JDict [(''id'', JInt 1)]]"]
  by (simp add: ingest_batch_def ingest_batch_try_def raise_for_status_def)

section \<open>Properties of main\<close>

lemma next_done_less: "next_done sched (Suc n) < Suc n"
  by (simp add: next_done_def split: list.split)

lemma mset_as_completed: "mset (as_completed sched fs) = mset fs"
proof (induction sched fs rule: as_completed.induct)
  case (1 sched)
  then show ?case by simp
next
  case (2 sched f fs)
  let ?k = "next_done sched (Suc (length fs))"
  have k: "?k < length (f # fs)" using next_done_less [of sched "length fs"] by simp
  have "f # fs = take ?k (f # fs) @ (f # fs) ! ?k # drop (Suc ?k) (f # fs)"
    using k by (rule id_take_nth_drop)
  then have "mset (f # fs)
      = mset (take ?k (f # fs) @ (f # fs) ! ?k # drop (Suc ?k) (f # fs))"
    by simp
  also have "\<dots> = add_mset ((f # fs) ! ?k)
                     (mset (take ?k (f # fs) @ drop (Suc ?k) (f # fs)))"
    by simp
  finally show ?case using 2 by simp
qed

lemma sum_list_filter_mset:
  "mset xs = mset ys \<Longrightarrow>
     sum_list (map f (filter P xs)) = (sum_list (map f (filter P ys)) :: nat)"
proof -
  assume eq: "mset xs = mset ys"
  have "sum_list (map f (filter P zs)) = sum_mset (image_mset f (filter_mset P (mset zs)))"
    for zs :: "'a list"
    by (metis mset_filter mset_map sum_mset_sum_list)
  with eq show ?thesis by simp
qed

lemma aggregate_counts:
  "aggregate (sc0, ec0, eb0) futs = Inr (sc, ec, eb) \<Longrightarrow>
     sc = sc0 + sum_list (map (counted_items ''data'') (filter batch_succeeded futs))
   \<and> ec = ec0 + sum_list (map (counted_items ''products'')
                             (filter (\<lambda>f. \<not> batch_succeeded f) futs))"
proof (induction futs arbitrary: sc0 ec0 eb0)
  case Nil
  then show ?case by simp
next
  case (Cons fut futs)
  show ?case
  proof (cases fut)
    case (Inl e)
    with Cons.prems show ?thesis by simp
  next
    case (Inr result)
    show ?thesis
    proof (cases "map_of result ''success''")
      case None
      with Inr Cons.prems show ?thesis by (simp add: dict_item_def)
    next
      case (Some ok)
      show ?thesis
      proof (cases "truthy ok")
        case True
        with Inr Some Cons.prems obtain data n where
          d: "map_of result ''data'' = Some data" "py_len data = Inr n"
             "aggregate (sc0 + n, ec0, eb0) futs = Inr (sc, ec, eb)"
          by (auto simp: dict_item_def split: option.splits sum.splits)
        from Cons.IH [OF d(3)] Inr Some True d(1,2) show ?thesis
          by (simp add: batch_succeeded_def counted_items_def)
      next
        case False
        with Inr Some Cons.prems obtain ps n where
          d: "map_of result ''products'' = Some ps" "py_len ps = Inr n"
             "aggregate (sc0, ec0 + n, eb0 @ [result]) futs = Inr (sc, ec, eb)"
          by (auto simp: dict_item_def split: option.splits sum.splits)
        from Cons.IH [OF d(3)] Inr Some False d(1,2) show ?thesis
          by (simp add: batch_succeeded_def counted_items_def)
      qed
    qed
  qed
qed

lemma create_temporary_index_name:
  "create_temporary_index post self name = Inr t \<Longrightarrow> t = name @ ''_temp''"
  by (auto simp: create_temporary_index_def split: http_outcome.splits sum.splits)

lemma main_counted:
  assumes "counted (main a w) = Some rep"
  shows "\<exists>loaded products tp bs eb.
           file_json w = Inr loaded \<and> py_iter loaded = Inr products
         \<and> transform_all (clock w) 0 products = Inr tp
         \<and> batches (arg_batch_size a) tp = Inr bs
         \<and> total_products rep = length tp
         \<and> dispatched (main a w)
             = zip bs (submit_all w (the_client a) (arg_index a @ ''_temp'') bs)
         \<and> aggregate (0, 0, [])
               (as_completed (schedule w)
                  (submit_all w (the_client a) (arg_index a @ ''_temp'') bs))
             = Inr (successful_imports rep, failed_imports rep, eb)
         \<and> calls (main a w)
             = (CreateTemporaryIndex (arg_index a)
                  # map (IngestBatch (arg_index a @ ''_temp'')) bs)
               @ (if 0 < successful_imports rep
                  then [ReplaceIndex (arg_index a @ ''_temp'') (arg_index a)] else [])"
  using assms
  by (auto simp: main_def Let_def aborted_def the_client_def
        dest!: create_temporary_index_name
        split: sum.splits if_splits prod.splits)

lemma main_not_counted:
  assumes "counted (main a w) = None"
  shows "\<not> replace_invoked (main a w)"
  using assms
  by (auto simp: main_def Let_def aborted_def replace_invoked_def
        split: sum.splits if_splits prod.splits call.splits)

lemma transform_all_length:
  "transform_all readings k ps = Inr ts \<Longrightarrow> length ts = length ps"
  by (induction ps arbitrary: k ts) (auto split: sum.splits)

lemma ingest_batch_shape:
  "(\<exists>data. ingest_batch post self index_name b
             = Inr [(''success'', JBool True), (''data'', data)])
   \<or> (\<exists>msg. ingest_batch post self index_name b
             = Inr [(''success'', JBool False), (''error'', JStr msg), (''products'', JList b)])"
  using ingest_batch_try_cases [of post self index_name b]
  by (auto simp: ingest_batch_def)

lemma submit_all_length: "length (submit_all w self t bs) = length bs"
  by (simp add: submit_all_def)

lemma dispatched_shape:
  assumes "(b, r) \<in> set (zip bs (submit_all w self t bs))"
  shows "(\<exists>data. r = Inr [(''success'', JBool True), (''data'', data)])
       \<or> (\<exists>msg. r = Inr [(''success'', JBool False), (''error'', JStr msg),
                          (''products'', JList b)])"
proof -
  from assms obtain n where n: "n < length bs" "bs ! n = b" "submit_all w self t bs ! n = r"
    by (auto simp: in_set_zip submit_all_length)
  then have "r = ingest_batch (post_items w n) self t b"
    by (simp add: submit_all_def nth_enumerate_eq)
  with ingest_batch_shape [of "post_items w n" self t b] show ?thesis by simp
qed

lemma failed_batch_items:
  assumes "(b, r) \<in> set (zip bs (submit_all w self t bs))" and "\<not> batch_succeeded r"
  shows "counted_items ''products'' r = length b"
  using dispatched_shape [OF assms(1)] assms(2)
  by (auto simp: batch_succeeded_def counted_items_def)

lemma sum_list_filter_split:
  "sum_list (map f (filter P xs)) + sum_list (map f (filter (\<lambda>x. \<not> P x) xs))
     = (sum_list (map f xs) :: nat)"
  by (induction xs) auto

lemma sum_over_dispatched:
  assumes "length fs = length bs"
  shows "sum_list (map g (filter P fs))
           = sum_list (map (\<lambda>(b, r). g r) (filter (\<lambda>(b, r). P r) (zip bs fs)))"
proof -
  from assms have "fs = map snd (zip bs fs)" by simp
  then have "sum_list (map g (filter P fs))
               = sum_list (map g (filter P (map snd (zip bs fs))))"
    by simp
  also have "\<dots> = sum_list (map (\<lambda>(b, r). g r) (filter (\<lambda>(b, r). P r) (zip bs fs)))"
    by (simp add: filter_map comp_def case_prod_unfold)
  finally show ?thesis .
qed

text \<open>
  A record without \<open>title\<close> anywhere in the file is fatal to the run: the list
  comprehension raises, \<open>main\<close> issues no request and ends with the critical error.
\<close>

lemma transform_all_missing_title:
  assumes "JDict d \<in> set ps" and "''title'' \<notin> fst ` set d"
  shows "\<exists>e. transform_all readings k ps = Inl e"
  using assms(1)
proof (induction ps arbitrary: k)
  case Nil
  then show ?case by simp
next
  case (Cons p ps)
  show ?case
  proof (cases "transform_product (readings k) p")
    case (Inl e)
    then show ?thesis by simp
  next
    case (Inr t)
    have "p \<noteq> JDict d"
    proof
      assume "p = JDict d"
      with Inr assms(2) show False
        by (simp add: has_key_map_of dict_item_def split: option.splits)
    qed
    with Cons.prems have "JDict d \<in> set ps" by auto
    from Cons.IH [OF this] obtain e where "transform_all readings (Suc k) ps = Inl e" by blast
    with Inr show ?thesis by simp
  qed
qed

lemma main_fatal_without_title:
  assumes "file_json w = Inr (JList ps)" and "JDict d \<in> set ps"
      and "''title'' \<notin> fst ` set d"
  shows "\<exists>e. main a w = aborted [] e"
proof -
  from transform_all_missing_title [OF assms(2,3)] obtain e where
    "transform_all (clock w) 0 ps = Inl e" by blast
  with assms(1) have "main a w = aborted [] e" by (simp add: main_def)
  then show ?thesis by (rule exI)
qed

lemmas run_defs = main_def demo_args_def demo_world_def DoofinderIngestion_def Let_def
     dict_item_def dict_get_def batches_def py_range_def range_length_def py_slice_def
     slice_index_def create_temporary_index_def raise_for_status_def submit_all_def
     enumerate_eq_zip ingest_batch_def ingest_batch_try_def next_done_def aborted_def
     replace_invoked_def batch_succeeded_def counted_items_def replace_index_def

lemma main_tally:
  assumes "counted (main a w) = Some rep"
  shows "successful_imports rep
           = sum_list (map (\<lambda>(b, r). counted_items ''data'' r)
                        (filter (\<lambda>(b, r). batch_succeeded r) (dispatched (main a w))))"
    and "failed_imports rep
           = sum_list (map (\<lambda>(b, r). length b)
                        (filter (\<lambda>(b, r). \<not> batch_succeeded r) (dispatched (main a w))))"
proof -
  from main_counted [OF assms] obtain bs eb where
    d: "dispatched (main a w)
          = zip bs (submit_all w (the_client a) (arg_index a @ ''_temp'') bs)"
    and g: "aggregate (0, 0, [])
          (as_completed (schedule w) (submit_all w (the_client a) (arg_index a @ ''_temp'') bs))
        = Inr (successful_imports rep, failed_imports rep, eb)"
    by blast
  let ?fs = "submit_all w (the_client a) (arg_index a @ ''_temp'') bs"
  let ?d = "zip bs ?fs"
  have len: "length ?fs = length bs" by (rule submit_all_length)
  have perm: "mset (as_completed (schedule w) ?fs) = mset ?fs" by (rule mset_as_completed)
  from aggregate_counts [OF g]
  have sc0: "successful_imports rep
               = sum_list (map (counted_items ''data'')
                    (filter batch_succeeded (as_completed (schedule w) ?fs)))"
   and ec0: "failed_imports rep
               = sum_list (map (counted_items ''products'')
                    (filter (\<lambda>f. \<not> batch_succeeded f) (as_completed (schedule w) ?fs)))"
    by simp_all
  show "successful_imports rep
          = sum_list (map (\<lambda>(b, r). counted_items ''data'' r)
               (filter (\<lambda>(b, r). batch_succeeded r) (dispatched (main a w))))"
    unfolding d
    using sc0 sum_list_filter_mset [OF perm] sum_over_dispatched [OF len] by simp
  have "failed_imports rep
          = sum_list (map (\<lambda>(b, r). counted_items ''products'' r)
               (filter (\<lambda>(b, r). \<not> batch_succeeded r) ?d))"
    using ec0 sum_list_filter_mset [OF perm] sum_over_dispatched [OF len] by simp
  also have "\<dots> = sum_list (map (\<lambda>(b, r). length b)
                       (filter (\<lambda>(b, r). \<not> batch_succeeded r) ?d))"
    by (rule arg_cong [where f = sum_list], rule map_cong)
       (auto simp: failed_batch_items)
  finally show "failed_imports rep
      = sum_list (map (\<lambda>(b, r). length b)
          (filter (\<lambda>(b, r). \<not> batch_succeeded r) (dispatched (main a w))))"
    unfolding d .
qed

lemma main_total:
  assumes "counted (main a w) = Some rep" and "0 < arg_batch_size a"
  shows "sum_list (map (\<lambda>(b, r). length b) (dispatched (main a w))) = total_products rep"
proof -
  from main_counted [OF assms(1)] obtain tp bs where
    m: "batches (arg_batch_size a) tp = Inr bs" "total_products rep = length tp"
       "dispatched (main a w)
          = zip bs (submit_all w (the_client a) (arg_index a @ ''_temp'') bs)"
    by blast
  let ?fs = "submit_all w (the_client a) (arg_index a @ ''_temp'') bs"
  have len: "length ?fs = length bs" by (rule submit_all_length)
  have "sum_list (map (\<lambda>(b, r). length b) (zip bs ?fs))
          = sum_list (map length (map fst (zip bs ?fs)))"
    by (simp add: comp_def case_prod_unfold)
  also have "\<dots> = sum_list (map length bs)" using len by simp
  also have "\<dots> = length (concat bs)" by (simp add: length_concat)
  also have "concat bs = tp" using assms(2) m(1) by (rule batches_concat)
  finally show ?thesis using m(2,3) by simp
qed

lemma replace_invoked_iff:
  "replace_invoked (main a w)
     = (\<exists>rep. counted (main a w) = Some rep \<and> 0 < successful_imports rep)"
proof (cases "counted (main a w)")
  case None
  then show ?thesis using main_not_counted [of a w] by simp
next
  case (Some rep)
  from main_counted [OF Some] obtain bs where
    "calls (main a w)
       = (CreateTemporaryIndex (arg_index a)
            # map (IngestBatch (arg_index a @ ''_temp'')) bs)
         @ (if 0 < successful_imports rep
            then [ReplaceIndex (arg_index a @ ''_temp'') (arg_index a)] else [])"
    by blast
  then have "replace_invoked (main a w) = (0 < successful_imports rep)"
    by (auto simp: replace_invoked_def)
  with Some show ?thesis by simp
qed

lemma replace_invoked_call:
  assumes "replace_invoked (main a w)"
  shows "ReplaceIndex (arg_index a @ ''_temp'') (arg_index a) \<in> set (calls (main a w))"
proof -
  from assms obtain rep where rep: "counted (main a w) = Some rep" "0 < successful_imports rep"
    by (auto simp: replace_invoked_iff)
  from main_counted [OF rep(1)] rep(2) show ?thesis by auto
qed

text \<open>
  C1, as the code has it. The replace operation is invoked exactly when the loop over the
  futures ends with a success count above zero, whatever the error count; the operation
  is then the replacement of the index by its temporary index. A run in which no batch
  succeeds does not invoke it, and a run whose loop ends and in which a succeeded batch
  returned a payload of positive length does.
\<close>

theorem replace_iff_success_count:
  "replace_invoked (main a w)
     = (\<exists>rep. counted (main a w) = Some rep \<and> 0 < successful_imports rep)
   \<and> (replace_invoked (main a w) \<longrightarrow>
        ReplaceIndex (arg_index a @ ''_temp'') (arg_index a) \<in> set (calls (main a w)))
   \<and> ((\<forall>(b, r) \<in> set (dispatched (main a w)). \<not> batch_succeeded r) \<longrightarrow>
        \<not> replace_invoked (main a w))
   \<and> (counted (main a w) \<noteq> None
        \<and> (\<exists>(b, r) \<in> set (dispatched (main a w)).
               batch_succeeded r \<and> 0 < counted_items ''data'' r) \<longrightarrow>
        replace_invoked (main a w))"
proof -
  have none: "\<not> replace_invoked (main a w)"
    if "\<forall>(b, r) \<in> set (dispatched (main a w)). \<not> batch_succeeded r"
  proof
    assume "replace_invoked (main a w)"
    then obtain rep where rep: "counted (main a w) = Some rep" "0 < successful_imports rep"
      by (auto simp: replace_invoked_iff)
    from that have "filter (\<lambda>(b, r). batch_succeeded r) (dispatched (main a w)) = []"
      by (auto simp: filter_empty_conv)
    with main_tally(1) [OF rep(1)] rep(2) show False by simp
  qed
  have some: "replace_invoked (main a w)"
    if c: "counted (main a w) \<noteq> None"
    and s: "\<exists>(b, r) \<in> set (dispatched (main a w)).
               batch_succeeded r \<and> 0 < counted_items ''data'' r"
  proof -
    from c obtain rep where rep: "counted (main a w) = Some rep" by auto
    from s obtain b r where br: "(b, r) \<in> set (dispatched (main a w))"
      "batch_succeeded r" "0 < counted_items ''data'' r" by auto
    let ?xs = "map (\<lambda>(b, r). counted_items ''data'' r)
                 (filter (\<lambda>(b, r). batch_succeeded r) (dispatched (main a w)))"
    from br(1,2) have "counted_items ''data'' r \<in> set ?xs" by force
    then have "counted_items ''data'' r \<le> sum_list ?xs" by (simp add: member_le_sum_list)
    with br(3) main_tally(1) [OF rep] have "0 < successful_imports rep" by simp
    with rep show ?thesis by (simp add: replace_invoked_iff)
  qed
  from none some replace_invoked_iff [of a w] replace_invoked_call [of a w]
  show ?thesis by blast
qed

theorem replace_iff_success_count_witness:
  "replace_invoked
     (main demo_args
        (demo_world [JDict [(''title'', JStr ''Mug'')], JDict [(''title'', JStr ''Cup'')]]
           (JList [JInt 1, JInt 2])))
   \<and> ReplaceIndex ''product_temp'' ''product''
       \<in> set (calls
           (main demo_args
              (demo_world [JDict [(''title'', JStr ''Mug'')], JDict [(''title'', JStr ''Cup'')]]
                 (JList [JInt 1, JInt 2]))))"
proof -
  have run: "replace_invoked
     (main demo_args
        (demo_world [JDict [(''title'', JStr ''Mug'')], JDict [(''title'', JStr ''Cup'')]]
           (JList [JInt 1, JInt 2])))"
    by (simp add: run_defs)
  have index: "arg_index demo_args = ''product''" by (simp add: demo_args_def)
  from replace_iff_success_count [of demo_args
         "demo_world [JDict [(''title'', JStr ''Mug'')], JDict [(''title'', JStr ''Cup'')]]
            (JList [JInt 1, JInt 2])"] run
  show ?thesis by (simp add: index)
qed

text \<open>
  The claim promises the replacement as soon as one batch succeeds. A run of one batch
  whose upload succeeds with an empty payload adds nothing to the success count, and the
  replace operation is not invoked.
\<close>

theorem replace_after_success_counterexample:
  "map snd (dispatched (main demo_args (demo_world [JDict [(''title'', JStr ''Mug'')]] (JList []))))
     = [Inr [(''success'', JBool True), (''data'', JList [])]]
   \<and> batch_succeeded (Inr [(''success'', JBool True), (''data'', JList [])])
   \<and> critical_error (main demo_args (demo_world [JDict [(''title'', JStr ''Mug'')]] (JList [])))
       = None
   \<and> \<not> replace_invoked
         (main demo_args (demo_world [JDict [(''title'', JStr ''Mug'')]] (JList [])))"
  by (simp add: run_defs)

text \<open>
  C2, as the code has it. When the loop over the futures ends, the success count is the
  sum, over the succeeded batches, of the lengths of the payloads the remote service
  returned, and the error count is the sum of the sizes of the failed batches. With a
  positive batch size the batches hold all the transformed items, so the two counts add
  up to their number as soon as every succeeded batch returned a payload as long as the
  batch; the number of transformed items is the number of products of the file.
\<close>

theorem main_counts:
  assumes "counted (main a w) = Some rep"
  shows "successful_imports rep
           = sum_list (map (\<lambda>(b, r). counted_items ''data'' r)
                        (filter (\<lambda>(b, r). batch_succeeded r) (dispatched (main a w))))
       \<and> failed_imports rep
           = sum_list (map (\<lambda>(b, r). length b)
                        (filter (\<lambda>(b, r). \<not> batch_succeeded r) (dispatched (main a w))))
       \<and> (0 < arg_batch_size a
            \<and> (\<forall>(b, r) \<in> set (dispatched (main a w)).
                   batch_succeeded r \<longrightarrow> counted_items ''data'' r = length b)
          \<longrightarrow> successful_imports rep + failed_imports rep = total_products rep)
       \<and> (\<forall>products. file_json w = Inr (JList products) \<longrightarrow>
             total_products rep = length products)"
proof -
  let ?d = "dispatched (main a w)"
  note sc = main_tally(1) [OF assms] and ec = main_tally(2) [OF assms]
  have total: "successful_imports rep + failed_imports rep = total_products rep"
    if pos: "0 < arg_batch_size a"
    and same: "\<forall>(b, r) \<in> set ?d. batch_succeeded r \<longrightarrow> counted_items ''data'' r = length b"
  proof -
    have "successful_imports rep
            = sum_list (map (\<lambda>(b, r). length b) (filter (\<lambda>(b, r). batch_succeeded r) ?d))"
      unfolding sc
      by (rule arg_cong [where f = sum_list], rule map_cong) (use same in auto)
    with ec have "successful_imports rep + failed_imports rep
            = sum_list (map (\<lambda>(b, r). length b) ?d)"
      using sum_list_filter_split [of "\<lambda>(b, r). length b" "\<lambda>(b, r). batch_succeeded r" ?d]
      by (simp add: case_prod_unfold)
    with main_total [OF assms pos] show ?thesis by simp
  qed
  have loaded_len: "total_products rep = length ps" if "file_json w = Inr (JList ps)" for ps
  proof -
    from main_counted [OF assms] that obtain tp where
      "transform_all (clock w) 0 ps = Inr tp" "total_products rep = length tp"
      by auto
    then show ?thesis by (simp add: transform_all_length)
  qed
  from sc ec total loaded_len show ?thesis by blast
qed

theorem main_counts_witness:
  "counted (main demo_args
      (demo_world [JDict [(''title'', JStr ''Mug'')], JDict [(''title'', JStr ''Cup'')]]
         (JList [JInt 1, JInt 2])))
     = Some \<lparr>total_products = 2, successful_imports = 2, failed_imports = 0,
              error_details = []\<rparr>
   \<and> successful_imports \<lparr>total_products = 2, successful_imports = 2, failed_imports = 0,
                           error_details = []\<rparr>
       = sum_list (map (\<lambda>(b, r). counted_items ''data'' r)
           (filter (\<lambda>(b, r). batch_succeeded r)
              (dispatched (main demo_args
                 (demo_world [JDict [(''title'', JStr ''Mug'')], JDict [(''title'', JStr ''Cup'')]]
                    (JList [JInt 1, JInt 2]))))))"
proof -
  have run: "counted (main demo_args
      (demo_world [JDict [(''title'', JStr ''Mug'')], JDict [(''title'', JStr ''Cup'')]]
         (JList [JInt 1, JInt 2])))
     = Some \<lparr>total_products = 2, successful_imports = 2, failed_imports = 0,
              error_details = []\<rparr>"
    by (simp add: run_defs)
  from main_counts [OF run] run show ?thesis by blast
qed

text \<open>
  The claim promises that the two counts add up to the number of transformed items. A
  run of one batch of two items whose upload succeeds with a payload of one entry ends
  with the counts 1 and 0 for 2 items.
\<close>

theorem counts_add_up_counterexample:
  "counted (main demo_args
      (demo_world [JDict [(''title'', JStr ''Mug'')], JDict [(''title'', JStr ''Cup'')]]
         (JDict [(''status'', JStr ''ok'')])))
     = Some \<lparr>total_products = 2, successful_imports = 1, failed_imports = 0,
              error_details = []\<rparr>
   \<and> map snd (dispatched (main demo_args
      (demo_world [JDict [(''title'', JStr ''Mug'')], JDict [(''title'', JStr ''Cup'')]]
         (JDict [(''status'', JStr ''ok'')]))))
     = [Inr [(''success'', JBool True), (''data'', JDict [(''status'', JStr ''ok'')])]]
   \<and> successful_imports \<lparr>total_products = 2, successful_imports = 1, failed_imports = 0,
                           error_details = []\<rparr>
       + failed_imports \<lparr>total_products = 2, successful_imports = 1, failed_imports = 0,
                          error_details = []\<rparr>
     \<noteq> total_products \<lparr>total_products = 2, successful_imports = 1, failed_imports = 0,
                          error_details = []\<rparr>"
  by (simp add: run_defs)

section \<open>Properties of the query builder\<close>

lemma dict_set_fresh: "k \<notin> fst ` set ps \<Longrightarrow> dict_set ps k v = ps @ [(k, v)]"
  by (induction ps) auto

lemma filter_dict_set:
  "filter (\<lambda>(k', v'). P k') (dict_set ps k v)
     = (if P k then dict_set (filter (\<lambda>(k', v'). P k') ps) k v
        else filter (\<lambda>(k', v'). P k') ps)"
  by (induction ps) auto

lemma write_all_append: "write_all ps (xs @ ys) = write_all (write_all ps xs) ys"
  by (induction xs arbitrary: ps) auto

lemma write_all_fresh:
  "distinct (map fst kvs) \<Longrightarrow> fst ` set kvs \<inter> fst ` set ps = {} \<Longrightarrow>
     write_all ps kvs = ps @ kvs"
proof (induction kvs arbitrary: ps)
  case Nil
  then show ?case by simp
next
  case (Cons kv kvs)
  obtain k v where kv: "kv = (k, v)" by (cases kv)
  from Cons.prems kv have fresh: "k \<notin> fst ` set ps" by auto
  from Cons.prems kv have "fst ` set kvs \<inter> fst ` set (ps @ [(k, v)]) = {}"
    by auto
  moreover from Cons.prems have "distinct (map fst kvs)" by simp
  ultimately have "write_all (ps @ [(k, v)]) kvs = (ps @ [(k, v)]) @ kvs"
    by (rule Cons.IH [rotated])
  with fresh show ?case by (simp add: kv dict_set_fresh)
qed

lemma filter_write_all:
  "filter (\<lambda>(k', v'). P k') (write_all ps kvs)
     = write_all (filter (\<lambda>(k', v'). P k') ps) (filter (\<lambda>(k', v'). P k') kvs)"
  by (induction kvs arbitrary: ps) (auto simp: filter_dict_set)

lemma search_conditions_write:
  "search_conditions ps field ops = write_all ps (filter_entry (field, JDict ops))"
  by (induction ops arbitrary: ps) auto

lemma search_filters_write: "search_filters ps fs = write_all ps (filter_spec fs)"
proof (induction fs arbitrary: ps)
  case Nil
  then show ?case by (simp add: filter_spec_def)
next
  case (Cons f fs)
  obtain field c where f: "f = (field, c)" by (cases f)
  have "(case c of JDict ops \<Rightarrow> search_conditions ps field ops
         | _ \<Rightarrow> dict_set ps (''filter['' @ field @ ''][]'') c)
        = write_all ps (filter_entry (field, c))"
    by (cases c) (simp_all add: search_conditions_write del: filter_entry.simps(1))
  then show ?case
    using Cons.IH by (simp add: f filter_spec_def write_all_append del: filter_entry.simps)
qed

lemma similar_conditions_eq: "similar_conditions ps field ops = search_conditions ps field ops"
  by (induction ops arbitrary: ps) auto

lemma similar_filters_eq: "similar_filters ps fs = search_filters ps fs"
proof (induction fs arbitrary: ps)
  case Nil
  then show ?case by simp
next
  case (Cons f fs)
  obtain field c where f: "f = (field, c)" by (cases f)
  show ?case by (cases c) (simp_all add: f Cons.IH similar_conditions_eq)
qed

lemma sort_fields_write:
  "sort_fields ps idx d
     = write_all ps (map (\<lambda>(k, v). (''sort'' @ ''['' @ str_nat idx @ '']['' @ k @ '']'', v)) d)"
  by (induction d arbitrary: ps) auto

lemma facet_keys_write:
  "facet_keys ps idx d
     = write_all ps (map (\<lambda>(k, v). (''facets'' @ ''['' @ str_nat idx @ '']['' @ k @ '']'', v)) d)"
  by (induction d arbitrary: ps) auto

lemma indexed_spec_Cons:
  "indexed_spec name i (d # ds)
     = map (\<lambda>(k, v). (name @ ''['' @ str_nat i @ '']['' @ k @ '']'', v)) d
       @ indexed_spec name (Suc i) ds"
  by (simp add: indexed_spec_def)

lemma search_sort_write:
  "search_sort ps idx (map JDict ds) = Inr (write_all ps (indexed_spec ''sort'' idx ds))"
proof (induction ds arbitrary: ps idx)
  case Nil
  then show ?case by (simp add: indexed_spec_def)
next
  case (Cons d ds)
  show ?case
    by (simp only: list.map search_sort.simps json.case Cons.IH sort_fields_write
          indexed_spec_Cons write_all_append)
qed

lemma search_facets_write:
  "search_facets ps idx (map JDict ds) = Inr (write_all ps (indexed_spec ''facets'' idx ds))"
proof (induction ds arbitrary: ps idx)
  case Nil
  then show ?case by (simp add: indexed_spec_def)
next
  case (Cons d ds)
  show ?case
    by (simp only: list.map search_facets.simps json.case Cons.IH facet_keys_write
          indexed_spec_Cons write_all_append)
qed

lemma of_char_digit: "d < 10 \<Longrightarrow> of_char (digit_char d) = 48 + d"
  by (simp add: digit_char_def)

lemma digit_char_not_bracket: "d < 10 \<Longrightarrow> digit_char d \<noteq> CHR '']''"
proof
  assume d: "d < 10" and eq: "digit_char d = CHR '']''"
  from eq have "(of_char (digit_char d) :: nat) = of_char (CHR '']'')" by simp
  with d show False by (simp add: of_char_digit)
qed

lemma str_nat_no_bracket: "CHR '']'' \<notin> set (str_nat n)"
proof (induction n rule: str_nat.induct)
  case (1 n)
  show ?case
  proof (cases "n < 10")
    case True
    then show ?thesis
      using digit_char_not_bracket [of n] by (subst str_nat.simps) auto
  next
    case False
    moreover have "n mod 10 < 10" by simp
    ultimately show ?thesis
      using 1 digit_char_not_bracket [of "n mod 10"] by (subst str_nat.simps) auto
  qed
qed

lemma digits_value_str_nat: "digits_value (str_nat n) = n"
proof (induction n rule: str_nat.induct)
  case (1 n)
  show ?case
  proof (cases "n < 10")
    case True
    then show ?thesis
      by (subst str_nat.simps) (simp add: digits_value_def of_char_digit)
  next
    case False
    have m: "n mod 10 < 10" by simp
    from False 1 have "digits_value (str_nat (n div 10)) = n div 10" by simp
    then have "digits_value (str_nat (n div 10) @ [digit_char (n mod 10)])
                 = 10 * (n div 10) + n mod 10"
      using m by (simp add: digits_value_def of_char_digit)
    with False show ?thesis by (subst str_nat.simps) simp
  qed
qed

lemma str_nat_inj: "str_nat i = str_nat j \<Longrightarrow> i = j"
  by (metis digits_value_str_nat)

lemma split_at_separator:
  "c \<notin> set xs \<Longrightarrow> c \<notin> set ys \<Longrightarrow> xs @ c # r = ys @ c # t \<Longrightarrow> xs = ys \<and> r = t"
proof (induction xs arbitrary: ys)
  case Nil
  then show ?case by (cases ys) auto
next
  case (Cons x xs)
  then show ?case by (cases ys) auto
qed

lemma indexed_key_inj:
  assumes "name @ ''['' @ str_nat i @ '']['' @ k @ '']''
             = name @ ''['' @ str_nat j @ '']['' @ k' @ '']''"
  shows "i = j \<and> k = k'"
proof -
  from assms have "str_nat i @ CHR '']'' # (''['' @ k @ '']'')
                     = str_nat j @ CHR '']'' # (''['' @ k' @ '']'')"
    by simp
  then have "str_nat i = str_nat j \<and> ''['' @ k @ '']'' = ''['' @ k' @ '']''"
    by (rule split_at_separator [OF str_nat_no_bracket str_nat_no_bracket])
  then show ?thesis by (simp add: str_nat_inj)
qed

lemma indexed_spec_keys:
  "key \<in> fst ` set (indexed_spec name i ds) \<Longrightarrow>
     \<exists>j k. i \<le> j \<and> key = name @ ''['' @ str_nat j @ '']['' @ k @ '']''"
proof (induction ds arbitrary: i)
  case Nil
  then show ?case by (simp add: indexed_spec_def)
next
  case (Cons d ds)
  let ?row = "map (\<lambda>(k, v). (name @ ''['' @ str_nat i @ '']['' @ k @ '']'', v)) d"
  have row_keys: "fst ` set ?row = (\<lambda>k. name @ ''['' @ str_nat i @ '']['' @ k @ '']'') ` fst ` set d"
    by (force simp: image_iff)
  from Cons.prems have "key \<in> fst ` set ?row \<or> key \<in> fst ` set (indexed_spec name (Suc i) ds)"
    by (simp only: indexed_spec_Cons set_append image_Un Un_iff)
  then show ?case
  proof
    assume "key \<in> fst ` set ?row"
    then obtain k where "key = name @ ''['' @ str_nat i @ '']['' @ k @ '']''"
      unfolding row_keys by blast
    then show ?thesis by blast
  next
    assume later: "key \<in> fst ` set (indexed_spec name (Suc i) ds)"
    from Cons.IH [OF later] obtain j k where
      "Suc i \<le> j" "key = name @ ''['' @ str_nat j @ '']['' @ k @ '']''" by blast
    then have "i \<le> j \<and> key = name @ ''['' @ str_nat j @ '']['' @ k @ '']''" by simp
    then show ?thesis by blast
  qed
qed

lemma distinct_indexed_spec:
  "\<forall>d \<in> set ds. distinct (map fst d) \<Longrightarrow> distinct (map fst (indexed_spec name i ds))"
proof (induction ds arbitrary: i)
  case Nil
  then show ?case by (simp add: indexed_spec_def)
next
  case (Cons d ds)
  let ?row = "map (\<lambda>(k, v). (name @ ''['' @ str_nat i @ '']['' @ k @ '']'', v)) d"
  have row_keys: "map fst ?row = map (\<lambda>k. name @ ''['' @ str_nat i @ '']['' @ k @ '']'') (map fst d)"
    by (simp add: case_prod_unfold comp_def)
  have "inj (\<lambda>k. name @ ''['' @ str_nat i @ '']['' @ k @ '']'')"
    by (rule injI) simp
  then have d1: "distinct (map fst ?row)"
    unfolding row_keys using Cons.prems by (simp add: distinct_map inj_on_def)
  have d2: "distinct (map fst (indexed_spec name (Suc i) ds))"
    using Cons.prems by (intro Cons.IH) simp
  have d3: "set (map fst ?row) \<inter> set (map fst (indexed_spec name (Suc i) ds)) = {}"
  proof (rule ccontr)
    assume "\<not> ?thesis"
    then obtain key where a: "key \<in> set (map fst ?row)"
      and b: "key \<in> set (map fst (indexed_spec name (Suc i) ds))" by blast
    from b have b: "key \<in> fst ` set (indexed_spec name (Suc i) ds)" by simp
    from a obtain k where k: "key = name @ ''['' @ str_nat i @ '']['' @ k @ '']''"
      unfolding row_keys by auto
    from indexed_spec_keys [OF b] obtain j k' where
      j: "Suc i \<le> j" "key = name @ ''['' @ str_nat j @ '']['' @ k' @ '']''" by blast
    from k j(2) have "i = j" using indexed_key_inj by blast
    with j(1) show False by simp
  qed
  from d1 d2 d3 show ?case
    by (simp only: indexed_spec_Cons map_append distinct_append simp_thms)
qed

lemma params_named_write_all:
  "params_named pre (write_all ps kvs)
     = write_all (params_named pre ps) (params_named pre kvs)"
  unfolding params_named_def by (rule filter_write_all)

lemma params_named_all:
  "\<forall>k \<in> fst ` set kvs. take (length pre) k = pre \<Longrightarrow> params_named pre kvs = kvs"
  unfolding params_named_def by (induction kvs) auto

lemma params_named_none:
  "\<forall>k \<in> fst ` set kvs. take (length pre) k \<noteq> pre \<Longrightarrow> params_named pre kvs = []"
  unfolding params_named_def by (induction kvs) auto

lemma filter_entry_keys:
  assumes "k \<in> fst ` set (filter_entry fc)"
  shows "\<exists>rest. k = ''filter['' @ rest"
proof -
  obtain field c where fc: "fc = (field, c)" by (cases fc)
  have "k = ''filter['' @ field @ ''][]'' \<or> (\<exists>op. k = ''filter['' @ field @ '']['' @ op @ '']'')"
  proof (cases c)
    case (JDict ops)
    with assms fc obtain op v where "(op, v) \<in> set ops"
      "k = ''filter['' @ field @ '']['' @ op @ '']''"
      by force
    then show ?thesis by blast
  qed (use assms fc in simp_all)
  then show ?thesis by (metis append_assoc)
qed

lemma filter_spec_keys:
  assumes "k \<in> fst ` set (filter_spec fs)"
  shows "\<exists>rest. k = ''filter['' @ rest"
proof -
  from assms obtain fc where "fc \<in> set fs" "k \<in> fst ` set (filter_entry fc)"
    unfolding filter_spec_def by force
  then show ?thesis using filter_entry_keys by blast
qed

lemma indexed_spec_prefix:
  assumes "k \<in> fst ` set (indexed_spec name i ds)"
  shows "\<exists>rest. k = name @ ''['' @ rest"
proof -
  from indexed_spec_keys [OF assms] obtain j f where
    "k = name @ ''['' @ str_nat j @ '']['' @ f @ '']''" by blast
  then show ?thesis by blast
qed

lemma search_sort_dicts: "search_sort ps i es = Inr ps' \<Longrightarrow> \<exists>ds. es = map JDict ds"
proof (induction es arbitrary: ps i)
  case Nil
  then show ?case by simp
next
  case (Cons e es)
  from Cons.prems obtain d where e: "e = JDict d"
    and rest: "search_sort (sort_fields ps i d) (Suc i) es = Inr ps'"
    by (cases e) simp_all
  from Cons.IH [OF rest] obtain ds where "es = map JDict ds" by blast
  with e have "e # es = map JDict (d # ds)" by simp
  then show ?case by (rule exI)
qed

lemma search_facets_dicts: "search_facets ps i es = Inr ps' \<Longrightarrow> \<exists>ds. es = map JDict ds"
proof (induction es arbitrary: ps i)
  case Nil
  then show ?case by simp
next
  case (Cons e es)
  from Cons.prems obtain d where e: "e = JDict d"
    and rest: "search_facets (facet_keys ps i d) (Suc i) es = Inr ps'"
    by (cases e) simp_all
  from Cons.IH [OF rest] obtain ds where "es = map JDict ds" by blast
  with e have "e # es = map JDict (d # ds)" by simp
  then show ?case by (rule exI)
qed

lemma filters_stage:
  assumes "(if truthy filters then
              (case filters of
                 JDict fs \<Rightarrow> Inr (search_filters p fs)
               | _ \<Rightarrow> Inl (AttributeError ''object has no attribute items''))
            else Inr p) = Inr p'"
  shows "\<exists>fs. (if truthy filters then filters = JDict fs else fs = [])
           \<and> p' = write_all p (filter_spec fs)"
proof (cases "truthy filters")
  case True
  with assms obtain fs where "filters = JDict fs" "p' = search_filters p fs"
    by (cases filters) auto
  with True show ?thesis by (auto simp: search_filters_write)
next
  case False
  with assms show ?thesis by (auto simp: filter_spec_def)
qed

lemma sort_stage:
  assumes "(if truthy sorts then
              (case py_iter sorts of Inl e \<Rightarrow> Inl e | Inr entries \<Rightarrow> search_sort p 0 entries)
            else Inr p) = Inr p'"
  shows "\<exists>ss. (if truthy sorts then py_iter sorts = Inr (map JDict ss) else ss = [])
           \<and> p' = write_all p (indexed_spec ''sort'' 0 ss)"
proof (cases "truthy sorts")
  case True
  with assms obtain entries where en: "py_iter sorts = Inr entries"
    "search_sort p 0 entries = Inr p'"
    by (auto split: sum.splits)
  from search_sort_dicts [OF en(2)] obtain ss where ss: "entries = map JDict ss" by blast
  with en(2) have "p' = write_all p (indexed_spec ''sort'' 0 ss)"
    by (simp add: search_sort_write)
  with True en(1) ss show ?thesis by auto
next
  case False
  with assms show ?thesis by (auto simp: indexed_spec_def)
qed

lemma facets_stage:
  assumes "(if truthy facets then
              (case py_iter facets of Inl e \<Rightarrow> Inl e | Inr entries \<Rightarrow> search_facets p 0 entries)
            else Inr p) = Inr p'"
  shows "\<exists>fc. (if truthy facets then py_iter facets = Inr (map JDict fc) else fc = [])
           \<and> p' = write_all p (indexed_spec ''facets'' 0 fc)"
proof (cases "truthy facets")
  case True
  with assms obtain entries where en: "py_iter facets = Inr entries"
    "search_facets p 0 entries = Inr p'"
    by (auto split: sum.splits)
  from search_facets_dicts [OF en(2)] obtain fc where fc: "entries = map JDict fc" by blast
  with en(2) have "p' = write_all p (indexed_spec ''facets'' 0 fc)"
    by (simp add: search_facets_write)
  with True en(1) fc show ?thesis by auto
next
  case False
  with assms show ?thesis by (auto simp: indexed_spec_def)
qed

lemma search_params_stages:
  assumes "search_params session query page rpp indices filters sorts facets qn = Inr ps"
  shows "\<exists>fs ss fc.
           (if truthy filters then filters = JDict fs else fs = [])
         \<and> (if truthy sorts then py_iter sorts = Inr (map JDict ss) else ss = [])
         \<and> (if truthy facets then py_iter facets = Inr (map JDict fc) else fc = [])
         \<and> ps = write_all
                  (write_all
                     (write_all
                        (write_all (search_base session query page rpp indices)
                           (filter_spec fs))
                        (indexed_spec ''sort'' 0 ss))
                     (indexed_spec ''facets'' 0 fc))
                  (if truthy qn then [(''query_name'', qn)] else [])"
proof -
  let ?p1 = "search_base session query page rpp indices"
  have p1: "(if truthy indices
             then dict_set [(''query'', JStr query), (''page'', JInt page), (''rpp'', JInt rpp),
                            (''session_id'', JStr session)] ''indices[]'' indices
             else [(''query'', JStr query), (''page'', JInt page), (''rpp'', JInt rpp),
                   (''session_id'', JStr session)]) = ?p1"
    by (simp add: search_base_def)
  let ?r2 = "if truthy filters then
              (case filters of
                 JDict fs \<Rightarrow> Inr (search_filters ?p1 fs)
               | _ \<Rightarrow> Inl (AttributeError ''object has no attribute items''))
            else Inr ?p1"
  let ?r3 = "\<lambda>p2. if truthy sorts then
              (case py_iter sorts of Inl e \<Rightarrow> Inl e | Inr entries \<Rightarrow> search_sort p2 0 entries)
            else Inr p2"
  let ?r4 = "\<lambda>p3. if truthy facets then
              (case py_iter facets of Inl e \<Rightarrow> Inl e | Inr entries \<Rightarrow> search_facets p3 0 entries)
            else Inr p3"
  have run: "(case ?r2 of Inl e \<Rightarrow> Inl e | Inr p2 \<Rightarrow>
               case ?r3 p2 of Inl e \<Rightarrow> Inl e | Inr p3 \<Rightarrow>
               case ?r4 p3 of Inl e \<Rightarrow> Inl e | Inr p4 \<Rightarrow>
               Inr (if truthy qn then dict_set p4 ''query_name'' qn else p4)) = Inr ps"
    using assms unfolding search_params_def Let_def p1 .
  obtain p2 where s2: "?r2 = Inr p2"
    using run by (cases ?r2) simp_all
  have run3: "(case ?r3 p2 of Inl e \<Rightarrow> Inl e | Inr p3 \<Rightarrow>
               case ?r4 p3 of Inl e \<Rightarrow> Inl e | Inr p4 \<Rightarrow>
               Inr (if truthy qn then dict_set p4 ''query_name'' qn else p4)) = Inr ps"
    using run unfolding s2 by simp
  obtain p3 where s3: "?r3 p2 = Inr p3"
    using run3 by (cases "?r3 p2") simp_all
  have run4: "(case ?r4 p3 of Inl e \<Rightarrow> Inl e | Inr p4 \<Rightarrow>
               Inr (if truthy qn then dict_set p4 ''query_name'' qn else p4)) = Inr ps"
    using run3 unfolding s3 by simp
  obtain p4 where s4: "?r4 p3 = Inr p4"
    using run4 by (cases "?r4 p3") simp_all
  have s5: "ps = (if truthy qn then dict_set p4 ''query_name'' qn else p4)"
    using run4 unfolding s4 by simp
  from filters_stage [OF s2] obtain fs where
    fs: "if truthy filters then filters = JDict fs else fs = []"
        "p2 = write_all ?p1 (filter_spec fs)" by blast
  from sort_stage [OF s3] obtain ss where
    ss: "if truthy sorts then py_iter sorts = Inr (map JDict ss) else ss = []"
        "p3 = write_all p2 (indexed_spec ''sort'' 0 ss)" by blast
  from facets_stage [OF s4] obtain fc where
    fc: "if truthy facets then py_iter facets = Inr (map JDict fc) else fc = []"
        "p4 = write_all p3 (indexed_spec ''facets'' 0 fc)" by blast
  have "ps = write_all p4 (if truthy qn then [(''query_name'', qn)] else [])"
    using s5 by simp
  with fs ss fc show ?thesis by blast
qed

lemma named_filter_spec: "params_named ''filter['' (filter_spec fs) = filter_spec fs"
proof (rule params_named_all, rule ballI)
  fix k assume "k \<in> fst ` set (filter_spec fs)"
  then obtain rest where "k = ''filter['' @ rest" using filter_spec_keys by blast
  then show "take (length ''filter['') k = ''filter[''" by simp
qed

lemma named_sort_spec: "params_named ''sort['' (indexed_spec ''sort'' i ds) = indexed_spec ''sort'' i ds"
proof (rule params_named_all, rule ballI)
  fix k assume "k \<in> fst ` set (indexed_spec ''sort'' i ds)"
  then obtain rest where "k = ''sort'' @ ''['' @ rest" using indexed_spec_prefix by blast
  then show "take (length ''sort['') k = ''sort[''" by simp
qed

lemma named_facets_spec:
  "params_named ''facets['' (indexed_spec ''facets'' i ds) = indexed_spec ''facets'' i ds"
proof (rule params_named_all, rule ballI)
  fix k assume "k \<in> fst ` set (indexed_spec ''facets'' i ds)"
  then obtain rest where "k = ''facets'' @ ''['' @ rest" using indexed_spec_prefix by blast
  then show "take (length ''facets['') k = ''facets[''" by simp
qed

lemma other_filter_spec:
  "params_named ''sort['' (filter_spec fs) = []" "params_named ''facets['' (filter_spec fs) = []"
proof -
  have "take (length ''sort['') k \<noteq> ''sort['' \<and> take (length ''facets['') k \<noteq> ''facets[''"
    if "k \<in> fst ` set (filter_spec fs)" for k
  proof -
    from that obtain rest where "k = ''filter['' @ rest" using filter_spec_keys by blast
    then show ?thesis by simp
  qed
  then show "params_named ''sort['' (filter_spec fs) = []"
    and "params_named ''facets['' (filter_spec fs) = []"
    by (simp_all add: params_named_none)
qed

lemma other_sort_spec:
  "params_named ''filter['' (indexed_spec ''sort'' i ds) = []"
  "params_named ''facets['' (indexed_spec ''sort'' i ds) = []"
proof -
  have "take (length ''filter['') k \<noteq> ''filter['' \<and> take (length ''facets['') k \<noteq> ''facets[''"
    if "k \<in> fst ` set (indexed_spec ''sort'' i ds)" for k
  proof -
    from that obtain rest where "k = ''sort'' @ ''['' @ rest" using indexed_spec_prefix by blast
    then show ?thesis by simp
  qed
  then show "params_named ''filter['' (indexed_spec ''sort'' i ds) = []"
    and "params_named ''facets['' (indexed_spec ''sort'' i ds) = []"
    by (simp_all add: params_named_none)
qed

lemma other_facets_spec:
  "params_named ''filter['' (indexed_spec ''facets'' i ds) = []"
  "params_named ''sort['' (indexed_spec ''facets'' i ds) = []"
proof -
  have "take (length ''filter['') k \<noteq> ''filter['' \<and> take (length ''sort['') k \<noteq> ''sort[''"
    if "k \<in> fst ` set (indexed_spec ''facets'' i ds)" for k
  proof -
    from that obtain rest where "k = ''facets'' @ ''['' @ rest" using indexed_spec_prefix by blast
    then show ?thesis by simp
  qed
  then show "params_named ''filter['' (indexed_spec ''facets'' i ds) = []"
    and "params_named ''sort['' (indexed_spec ''facets'' i ds) = []"
    by (simp_all add: params_named_none)
qed

lemma named_search_base:
  "params_named ''filter['' (search_base session query page rpp indices) = []"
  "params_named ''sort['' (search_base session query page rpp indices) = []"
  "params_named ''facets['' (search_base session query page rpp indices) = []"
  by (simp_all add: search_base_def params_named_def)

lemma named_query_name:
  "params_named ''filter['' (if truthy qn then [(''query_name'', qn)] else []) = []"
  "params_named ''sort['' (if truthy qn then [(''query_name'', qn)] else []) = []"
  "params_named ''facets['' (if truthy qn then [(''query_name'', qn)] else []) = []"
  by (simp_all add: params_named_def)

lemma search_params_named:
  assumes "search_params session query page rpp indices filters sorts facets qn = Inr ps"
  shows "\<exists>fs ss fc.
           (if truthy filters then filters = JDict fs else fs = [])
         \<and> (if truthy sorts then py_iter sorts = Inr (map JDict ss) else ss = [])
         \<and> (if truthy facets then py_iter facets = Inr (map JDict fc) else fc = [])
         \<and> params_named ''filter['' ps = write_all [] (filter_spec fs)
         \<and> params_named ''sort['' ps = write_all [] (indexed_spec ''sort'' 0 ss)
         \<and> params_named ''facets['' ps = write_all [] (indexed_spec ''facets'' 0 fc)"
proof -
  from search_params_stages [OF assms] obtain fs ss fc where
    st: "if truthy filters then filters = JDict fs else fs = []"
        "if truthy sorts then py_iter sorts = Inr (map JDict ss) else ss = []"
        "if truthy facets then py_iter facets = Inr (map JDict fc) else fc = []"
    and ps: "ps = write_all
                  (write_all
                     (write_all
                        (write_all (search_base session query page rpp indices)
                           (filter_spec fs))
                        (indexed_spec ''sort'' 0 ss))
                     (indexed_spec ''facets'' 0 fc))
                  (if truthy qn then [(''query_name'', qn)] else [])"
    by blast
  have "params_named ''filter['' ps = write_all [] (filter_spec fs)"
    unfolding ps
    by (simp only: params_named_write_all named_search_base named_query_name
          named_filter_spec other_sort_spec other_facets_spec write_all.simps)
  moreover have "params_named ''sort['' ps = write_all [] (indexed_spec ''sort'' 0 ss)"
    unfolding ps
    by (simp only: params_named_write_all named_search_base named_query_name
          named_sort_spec other_filter_spec other_facets_spec write_all.simps)
  moreover have "params_named ''facets['' ps = write_all [] (indexed_spec ''facets'' 0 fc)"
    unfolding ps
    by (simp only: params_named_write_all named_search_base named_query_name
          named_facets_spec other_filter_spec other_sort_spec write_all.simps)
  ultimately show ?thesis using st by blast
qed

lemma write_all_distinct: "distinct (map fst kvs) \<Longrightarrow> write_all [] kvs = kvs"
  using write_all_fresh [of kvs "[]"] by simp


lemma map_of_params_named:
  "take (length pre) k = pre \<Longrightarrow> map_of (params_named pre ps) k = map_of ps k"
  unfolding params_named_def by (induction ps) auto

lemma in_indexed_spec:
  assumes "i < length ds" and "(f, v) \<in> set (ds ! i)"
  shows "(name @ ''['' @ str_nat (start + i) @ '']['' @ f @ '']'', v)
           \<in> set (indexed_spec name start ds)"
proof -
  from assms(1) have "(start + i, ds ! i) \<in> set (enumerate start ds)"
    by (simp add: in_set_enumerate_eq)
  with assms(2) show ?thesis
    unfolding indexed_spec_def by force
qed


lemma sort_view:
  assumes "search_params session query page rpp indices filters (JList (map JDict ss)) facets qn
             = Inr ps"
  shows "params_named ''sort['' ps = write_all [] (indexed_spec ''sort'' 0 ss)"
proof -
  from search_params_named [OF assms] obtain ss' where
    "if truthy (JList (map JDict ss)) then py_iter (JList (map JDict ss)) = Inr (map JDict ss')
     else ss' = []"
    "params_named ''sort['' ps = write_all [] (indexed_spec ''sort'' 0 ss')" by blast
  moreover from this(1) have "ss' = ss"
    by (cases "ss = []") (simp_all add: inj_map_eq_map inj_on_def)
  ultimately show ?thesis by simp
qed

lemma facets_view:
  assumes "search_params session query page rpp indices filters sorts (JList (map JDict fc)) qn
             = Inr ps"
  shows "params_named ''facets['' ps = write_all [] (indexed_spec ''facets'' 0 fc)"
proof -
  from search_params_named [OF assms] obtain fc' where
    "if truthy (JList (map JDict fc)) then py_iter (JList (map JDict fc)) = Inr (map JDict fc')
     else fc' = []"
    "params_named ''facets['' ps = write_all [] (indexed_spec ''facets'' 0 fc')" by blast
  moreover from this(1) have "fc' = fc"
    by (cases "fc = []") (simp_all add: inj_map_eq_map inj_on_def)
  ultimately show ?thesis by simp
qed

lemma search_params_returns:
  assumes "filters = JNull \<or> (\<exists>fs. filters = JDict fs)"
      and "sorts = JNull \<or> (\<exists>ss. sorts = JList (map JDict ss))"
      and "facets = JNull \<or> (\<exists>fc. facets = JList (map JDict fc))"
  shows "\<exists>ps. search_params session query page rpp indices filters sorts facets qn = Inr ps"
proof -
  have f: "\<exists>p'. (if truthy filters then
              (case filters of
                 JDict fs \<Rightarrow> Inr (search_filters p fs)
               | _ \<Rightarrow> Inl (AttributeError ''object has no attribute items''))
            else Inr p) = Inr p'" for p
    using assms(1) by auto
  have s: "\<exists>p'. (if truthy sorts then
              (case py_iter sorts of Inl e \<Rightarrow> Inl e | Inr entries \<Rightarrow> search_sort p 0 entries)
            else Inr p) = Inr p'" for p
    using assms(2) by (auto simp: search_sort_write)
  have c: "\<exists>p'. (if truthy facets then
              (case py_iter facets of Inl e \<Rightarrow> Inl e | Inr entries \<Rightarrow> search_facets p 0 entries)
            else Inr p) = Inr p'" for p
    using assms(3) by (auto simp: search_facets_write)
  obtain p1 where p1: "p1 = (if truthy indices
             then dict_set [(''query'', JStr query), (''page'', JInt page), (''rpp'', JInt rpp),
                            (''session_id'', JStr session)] ''indices[]'' indices
             else [(''query'', JStr query), (''page'', JInt page), (''rpp'', JInt rpp),
                   (''session_id'', JStr session)])" by simp
  from f obtain p2 where p2: "(if truthy filters then
              (case filters of
                 JDict fs \<Rightarrow> Inr (search_filters p1 fs)
               | _ \<Rightarrow> Inl (AttributeError ''object has no attribute items''))
            else Inr p1) = Inr p2" by blast
  from s obtain p3 where p3: "(if truthy sorts then
              (case py_iter sorts of Inl e \<Rightarrow> Inl e | Inr entries \<Rightarrow> search_sort p2 0 entries)
            else Inr p2) = Inr p3" by blast
  from c obtain p4 where p4: "(if truthy facets then
              (case py_iter facets of Inl e \<Rightarrow> Inl e | Inr entries \<Rightarrow> search_facets p3 0 entries)
            else Inr p3) = Inr p4" by blast
  show ?thesis
    unfolding search_params_def Let_def p1 [symmetric] p2 sum.case p3 p4 by simp
qed

lemma map_of_dict_set: "map_of (dict_set ps k v) = (map_of ps)(k \<mapsto> v)"
  by (induction ps) auto

lemma map_of_write_all_other:
  "k \<notin> fst ` set kvs \<Longrightarrow> map_of (write_all ps kvs) k = map_of ps k"
  by (induction kvs arbitrary: ps) (auto simp: map_of_dict_set)

lemma session_id_not_written:
  "''session_id'' \<notin> fst ` set (filter_spec fs)"
  "''session_id'' \<notin> fst ` set (indexed_spec ''sort'' i ds)"
  "''session_id'' \<notin> fst ` set (indexed_spec ''facets'' i ds)"
proof -
  show "''session_id'' \<notin> fst ` set (filter_spec fs)"
  proof
    assume "''session_id'' \<in> fst ` set (filter_spec fs)"
    from filter_spec_keys [OF this] show False by simp
  qed
  show "''session_id'' \<notin> fst ` set (indexed_spec ''sort'' i ds)"
  proof
    assume "''session_id'' \<in> fst ` set (indexed_spec ''sort'' i ds)"
    from indexed_spec_prefix [OF this] show False by simp
  qed
  show "''session_id'' \<notin> fst ` set (indexed_spec ''facets'' i ds)"
  proof
    assume "''session_id'' \<in> fst ` set (indexed_spec ''facets'' i ds)"
    from indexed_spec_prefix [OF this] show False by simp
  qed
qed

text \<open>
  Each of the three calls puts the identifier drawn for it under \<open>session_id\<close>, and no
  later step of the call overwrites it. Nothing of one call reaches another: the
  parameters depend on the arguments and on the draw of that call alone.
\<close>

lemma search_session_id:
  assumes "search_params session query page rpp indices filters sorts facets qn = Inr ps"
  shows "map_of ps ''session_id'' = Some (JStr session)"
proof -
  from search_params_stages [OF assms] obtain fs ss fc where
    ps: "ps = write_all
                  (write_all
                     (write_all
                        (write_all (search_base session query page rpp indices)
                           (filter_spec fs))
                        (indexed_spec ''sort'' 0 ss))
                     (indexed_spec ''facets'' 0 fc))
                  (if truthy qn then [(''query_name'', qn)] else [])"
    by blast
  have "map_of (search_base session query page rpp indices) ''session_id''
          = Some (JStr session)"
    by (simp add: search_base_def map_of_dict_set)
  then show ?thesis
    unfolding ps by (simp add: map_of_write_all_other session_id_not_written map_of_dict_set)
qed

lemma suggest_session_id:
  "map_of (suggest_params session query indices) ''session_id'' = Some (JStr session)"
  by (simp add: suggest_params_def Let_def map_of_dict_set)

lemma similar_products_session_id:
  assumes "similar_products_params session product_id rpp exclude_self filters = Inr ps"
  shows "map_of ps ''session_id'' = Some (JStr session)"
proof -
  let ?p0 = "[(''dfid'', JStr product_id), (''rpp'', JInt rpp),
              (''exclude_self'', JBool exclude_self), (''session_id'', JStr session)]"
  from assms have "(if truthy filters then
              (case filters of
                 JDict fs \<Rightarrow> Inr (search_filters ?p0 fs)
               | _ \<Rightarrow> Inl (AttributeError ''object has no attribute items''))
            else Inr ?p0) = Inr ps"
    unfolding similar_products_params_def Let_def similar_filters_eq .
  from filters_stage [OF this] obtain fs where "ps = write_all ?p0 (filter_spec fs)" by blast
  then show ?thesis
    by (simp add: map_of_write_all_other session_id_not_written)
qed











lemma str_nat_0: "str_nat 0 = ''0''"
  by (simp add: str_nat.simps [of 0] digit_chars)

lemma str_nat_1: "str_nat (Suc 0) = ''1''"
  by (simp add: str_nat.simps [of "Suc 0"] digit_chars)


text \<open>
  C7. A search with a list of sort dictionaries and a list of facet dictionaries (and no
  filters) builds its parameters without error. Whenever the parameters are built from a
  sort list whose entries name each field once, those named \<open>sort[...]\<close> are exactly
  \<open>sort[i][f]=d\<close> for the entry at position \<open>i\<close> and each field \<open>f\<close> with direction \<open>d\<close> in
  it, in order; and likewise those named \<open>facets[...]\<close> are exactly \<open>facets[i][k]=v\<close> for
  the facet at position \<open>i\<close> and each key \<open>k\<close> with value \<open>v\<close> in it.
\<close>

theorem search_sort_facets_encoding:
  "(\<exists>ps. search_params session query page rpp indices JNull
            (JList (map JDict ss)) (JList (map JDict fc)) query_name = Inr ps)
   \<and> (\<forall>ps. search_params session query page rpp indices filters
               (JList (map JDict ss)) facets query_name = Inr ps
             \<and> (\<forall>d \<in> set ss. distinct (map fst d)) \<longrightarrow>
          params_named ''sort['' ps = indexed_spec ''sort'' 0 ss
        \<and> (\<forall>i < length ss. \<forall>(f, d) \<in> set (ss ! i).
              map_of ps (''sort['' @ str_nat i @ '']['' @ f @ '']'') = Some d))
   \<and> (\<forall>ps. search_params session query page rpp indices filters
               sorts (JList (map JDict fc)) query_name = Inr ps
             \<and> (\<forall>d \<in> set fc. distinct (map fst d)) \<longrightarrow>
          params_named ''facets['' ps = indexed_spec ''facets'' 0 fc
        \<and> (\<forall>i < length fc. \<forall>(k, v) \<in> set (fc ! i).
              map_of ps (''facets['' @ str_nat i @ '']['' @ k @ '']'') = Some v))"
proof -
  have built: "\<exists>ps. search_params session query page rpp indices JNull
            (JList (map JDict ss)) (JList (map JDict fc)) query_name = Inr ps"
    by (rule search_params_returns) auto
  have sorted: "params_named ''sort['' ps = indexed_spec ''sort'' 0 ss
        \<and> (\<forall>i < length ss. \<forall>(f, d) \<in> set (ss ! i).
              map_of ps (''sort['' @ str_nat i @ '']['' @ f @ '']'') = Some d)"
    if run: "search_params session query page rpp indices filters
               (JList (map JDict ss)) facets query_name = Inr ps"
    and each: "\<forall>d \<in> set ss. distinct (map fst d)" for ps
  proof -
    have dist: "distinct (map fst (indexed_spec ''sort'' 0 ss))"
      using each by (rule distinct_indexed_spec)
    with sort_view [OF run] have eq: "params_named ''sort['' ps = indexed_spec ''sort'' 0 ss"
      by (simp add: write_all_distinct)
    have "map_of ps (''sort['' @ str_nat i @ '']['' @ f @ '']'') = Some d"
      if "i < length ss" "(f, d) \<in> set (ss ! i)" for i f d
    proof -
      from in_indexed_spec [OF that, of "''sort''" 0]
      have "(''sort['' @ str_nat i @ '']['' @ f @ '']'', d) \<in> set (indexed_spec ''sort'' 0 ss)"
        by simp
      with dist have "map_of (indexed_spec ''sort'' 0 ss)
                        (''sort['' @ str_nat i @ '']['' @ f @ '']'') = Some d"
        by (rule map_of_is_SomeI)
      then have "map_of (params_named ''sort['' ps)
                   (''sort['' @ str_nat i @ '']['' @ f @ '']'') = Some d"
        by (simp only: eq)
      then show ?thesis by (simp add: map_of_params_named)
    qed
    with eq show ?thesis by blast
  qed
  have faceted: "params_named ''facets['' ps = indexed_spec ''facets'' 0 fc
        \<and> (\<forall>i < length fc. \<forall>(k, v) \<in> set (fc ! i).
              map_of ps (''facets['' @ str_nat i @ '']['' @ k @ '']'') = Some v)"
    if run: "search_params session query page rpp indices filters
               sorts (JList (map JDict fc)) query_name = Inr ps"
    and each: "\<forall>d \<in> set fc. distinct (map fst d)" for ps
  proof -
    have dist: "distinct (map fst (indexed_spec ''facets'' 0 fc))"
      using each by (rule distinct_indexed_spec)
    with facets_view [OF run] have eq: "params_named ''facets['' ps = indexed_spec ''facets'' 0 fc"
      by (simp add: write_all_distinct)
    have "map_of ps (''facets['' @ str_nat i @ '']['' @ k @ '']'') = Some v"
      if "i < length fc" "(k, v) \<in> set (fc ! i)" for i k v
    proof -
      from in_indexed_spec [OF that, of "''facets''" 0]
      have "(''facets['' @ str_nat i @ '']['' @ k @ '']'', v)
              \<in> set (indexed_spec ''facets'' 0 fc)"
        by simp
      with dist have "map_of (indexed_spec ''facets'' 0 fc)
                        (''facets['' @ str_nat i @ '']['' @ k @ '']'') = Some v"
        by (rule map_of_is_SomeI)
      then have "map_of (params_named ''facets['' ps)
                   (''facets['' @ str_nat i @ '']['' @ k @ '']'') = Some v"
        by (simp only: eq)
      then show ?thesis by (simp add: map_of_params_named)
    qed
    with eq show ?thesis by blast
  qed
  from built sorted faceted show ?thesis by blast
qed

theorem search_sort_facets_encoding_witness:
  "search_params ''sid'' ''shoes'' 1 20 JNull JNull
       (JList (map JDict [[(''price'', JStr ''asc'')]]))
       (JList (map JDict [[(''field'', JStr ''brand''), (''size'', JInt 10)]])) JNull
     = Inr [(''query'', JStr ''shoes''), (''page'', JInt 1), (''rpp'', JInt 20),
            (''session_id'', JStr ''sid''), (''sort[0][price]'', JStr ''asc''),
            (''facets[0][field]'', JStr ''brand''), (''facets[0][size]'', JInt 10)]
   \<and> params_named ''sort[''
         [(''query'', JStr ''shoes''), (''page'', JInt 1), (''rpp'', JInt 20),
          (''session_id'', JStr ''sid''), (''sort[0][price]'', JStr ''asc''),
          (''facets[0][field]'', JStr ''brand''), (''facets[0][size]'', JInt 10)]
     = [(''sort[0][price]'', JStr ''asc'')]
   \<and> params_named ''facets[''
         [(''query'', JStr ''shoes''), (''page'', JInt 1), (''rpp'', JInt 20),
          (''session_id'', JStr ''sid''), (''sort[0][price]'', JStr ''asc''),
          (''facets[0][field]'', JStr ''brand''), (''facets[0][size]'', JInt 10)]
     = [(''facets[0][field]'', JStr ''brand''), (''facets[0][size]'', JInt 10)]"
proof -
  have run: "search_params ''sid'' ''shoes'' 1 20 JNull JNull
       (JList (map JDict [[(''price'', JStr ''asc'')]]))
       (JList (map JDict [[(''field'', JStr ''brand''), (''size'', JInt 10)]])) JNull
     = Inr [(''query'', JStr ''shoes''), (''page'', JInt 1), (''rpp'', JInt 20),
            (''session_id'', JStr ''sid''), (''sort[0][price]'', JStr ''asc''),
            (''facets[0][field]'', JStr ''brand''), (''facets[0][size]'', JInt 10)]"
    by (simp add: search_params_def str_nat_0)
  have spec: "indexed_spec ''sort'' 0 [[(''price'', JStr ''asc'')]]
                = [(''sort[0][price]'', JStr ''asc'')]"
    "indexed_spec ''facets'' 0 [[(''field'', JStr ''brand''), (''size'', JInt 10)]]
       = [(''facets[0][field]'', JStr ''brand''), (''facets[0][size]'', JInt 10)]"
    by (simp_all add: indexed_spec_def str_nat_0)
  from search_sort_facets_encoding [of "''sid''" "''shoes''" 1 20 JNull
          "[[(''price'', JStr ''asc'')]]" "[[(''field'', JStr ''brand''), (''size'', JInt 10)]]"
          JNull JNull
          "JList (map JDict [[(''field'', JStr ''brand''), (''size'', JInt 10)]])"
          "JList (map JDict [[(''price'', JStr ''asc'')]])"]
       run
  have "params_named ''sort[''
         [(''query'', JStr ''shoes''), (''page'', JInt 1), (''rpp'', JInt 20),
          (''session_id'', JStr ''sid''), (''sort[0][price]'', JStr ''asc''),
          (''facets[0][field]'', JStr ''brand''), (''facets[0][size]'', JInt 10)]
     = indexed_spec ''sort'' 0 [[(''price'', JStr ''asc'')]]
   \<and> params_named ''facets[''
         [(''query'', JStr ''shoes''), (''page'', JInt 1), (''rpp'', JInt 20),
          (''session_id'', JStr ''sid''), (''sort[0][price]'', JStr ''asc''),
          (''facets[0][field]'', JStr ''brand''), (''facets[0][size]'', JInt 10)]
     = indexed_spec ''facets'' 0 [[(''field'', JStr ''brand''), (''size'', JInt 10)]]"
    by simp
  with run spec show ?thesis by simp
qed





end
